theory Spec2Isabelle
  imports Complex_Main
begin

section \<open>JavaScript numbers\<close>

text \<open>
  The transformer computes with JavaScript numbers: \<^verbatim>\<open>parseFloat\<close>, \<^verbatim>\<open>-\<close>, \<^verbatim>\<open>/\<close>,
  \<^verbatim>\<open>*\<close>, \<^verbatim>\<open>+=\<close>, \<^verbatim>\<open>>\<close> and \<^verbatim>\<open>toFixed\<close>. A number is an IEEE 754 binary64
  value: not-a-number, an infinity, negative zero, or a finite value \<open>Fin q\<close> whose
  rational \<open>q\<close> is the exact value of the double (\<open>Fin 0\<close> is positive zero).
  Every arithmetic result is the exact rational result rounded by \<open>rd\<close>:
  round to nearest, ties to even, 53 significant bits, subnormals down to \<open>2 powi -1074\<close>,
  overflow to infinity from \<open>2 ^ 1024\<close>. \<open>rd_exp q\<close> is the exponent of the last
  significant bit at the magnitude of \<open>q\<close>, \<open>rd_val q\<close> the nearest multiple of
  \<open>2 powi rd_exp q\<close>.
\<close>

datatype jsnum = NaN | PInf | NInf | NZero | Fin rat

text \<open>\<open>flog b n\<close> is the largest \<open>e\<close> with \<open>b ^ e \<le> n\<close> (for \<open>n \<ge> 1\<close>), and
  \<open>ilog b q\<close> the largest \<open>e\<close> with \<open>b powi e \<le> q\<close> (for \<open>q > 0\<close>).\<close>

function flog :: "int \<Rightarrow> int \<Rightarrow> int" where
  "flog b n = (if b < 2 \<or> n < b then 0 else 1 + flog b (n div b))"
  by pat_completeness auto
termination
proof (relation "measure (\<lambda>(b, n). nat n)")
  fix b n :: int
  assume "\<not> (b < 2 \<or> n < b)"
  then have "n div b < n" and "0 < n"
    by (simp_all add: int_div_less_self)
  then show "((b, n div b), (b, n)) \<in> measure (\<lambda>(b, n). nat n)"
    by simp
qed simp

declare flog.simps [simp del]

definition ilog :: "int \<Rightarrow> rat \<Rightarrow> int" where
  "ilog b q =
     (let (n, d) = quotient_of q;
          e = flog b n - flog b d
      in if of_int b powi e \<le> q then e else e - 1)"

text \<open>Round to the nearest integer, ties to the even one.\<close>

definition rne :: "rat \<Rightarrow> int" where
  "rne x =
     (let f = \<lfloor>x\<rfloor>; r = x - of_int f
      in if r < 1 / 2 then f
         else if 1 / 2 < r then f + 1
         else if even f then f else f + 1)"

definition rd_exp :: "rat \<Rightarrow> int" where
  "rd_exp q = max (ilog 2 \<bar>q\<bar> - 52) (- 1074)"

definition rd_val :: "rat \<Rightarrow> rat" where
  "rd_val q = of_int (rne (q / 2 powi rd_exp q)) * 2 powi rd_exp q"

definition overflow_threshold :: rat where
  "overflow_threshold = 2 ^ 1024"

definition rd :: "rat \<Rightarrow> jsnum" where
  "rd q =
     (if q = 0 then Fin 0
      else if overflow_threshold \<le> \<bar>rd_val q\<bar> then (if 0 < q then PInf else NInf)
      else if rd_val q = 0 then (if q < 0 then NZero else Fin 0)
      else Fin (rd_val q))"

text \<open>The arithmetic operators on numbers, with the sign rules for zeros and infinities.\<close>

definition is_neg :: "jsnum \<Rightarrow> bool" where
  "is_neg x = (case x of NInf \<Rightarrow> True | NZero \<Rightarrow> True | Fin q \<Rightarrow> q < 0 | _ \<Rightarrow> False)"

definition is_zero :: "jsnum \<Rightarrow> bool" where
  "is_zero x = (x = NZero \<or> x = Fin 0)"

definition is_inf :: "jsnum \<Rightarrow> bool" where
  "is_inf x = (x = PInf \<or> x = NInf)"

definition zero_s :: "bool \<Rightarrow> jsnum" where
  "zero_s neg = (if neg then NZero else Fin 0)"

definition inf_s :: "bool \<Rightarrow> jsnum" where
  "inf_s neg = (if neg then NInf else PInf)"

fun val :: "jsnum \<Rightarrow> rat" where
  "val (Fin q) = q"
| "val _ = 0"

fun js_neg :: "jsnum \<Rightarrow> jsnum" where
  "js_neg NaN = NaN"
| "js_neg PInf = NInf"
| "js_neg NInf = PInf"
| "js_neg NZero = Fin 0"
| "js_neg (Fin q) = (if q = 0 then NZero else Fin (- q))"

fun js_add :: "jsnum \<Rightarrow> jsnum \<Rightarrow> jsnum" where
  "js_add NaN _ = NaN"
| "js_add _ NaN = NaN"
| "js_add PInf NInf = NaN"
| "js_add NInf PInf = NaN"
| "js_add PInf _ = PInf"
| "js_add _ PInf = PInf"
| "js_add NInf _ = NInf"
| "js_add _ NInf = NInf"
| "js_add NZero NZero = NZero"
| "js_add NZero (Fin b) = Fin b"
| "js_add (Fin a) NZero = Fin a"
| "js_add (Fin a) (Fin b) = rd (a + b)"

definition js_sub :: "jsnum \<Rightarrow> jsnum \<Rightarrow> jsnum" where
  "js_sub x y = js_add x (js_neg y)"

definition js_mul :: "jsnum \<Rightarrow> jsnum \<Rightarrow> jsnum" where
  "js_mul x y =
     (if x = NaN \<or> y = NaN then NaN
      else if is_inf x \<or> is_inf y then
        (if is_zero x \<or> is_zero y then NaN else inf_s (is_neg x \<noteq> is_neg y))
      else if is_zero x \<or> is_zero y then zero_s (is_neg x \<noteq> is_neg y)
      else rd (val x * val y))"

definition js_div :: "jsnum \<Rightarrow> jsnum \<Rightarrow> jsnum" where
  "js_div x y =
     (if x = NaN \<or> y = NaN then NaN
      else if is_inf x then (if is_inf y then NaN else inf_s (is_neg x \<noteq> is_neg y))
      else if is_inf y then zero_s (is_neg x \<noteq> is_neg y)
      else if is_zero y then (if is_zero x then NaN else inf_s (is_neg x \<noteq> is_neg y))
      else if is_zero x then zero_s (is_neg x \<noteq> is_neg y)
      else rd (val x / val y))"

fun js_lt :: "jsnum \<Rightarrow> jsnum \<Rightarrow> bool" where
  "js_lt NaN _ = False"
| "js_lt _ NaN = False"
| "js_lt PInf _ = False"
| "js_lt _ PInf = True"
| "js_lt _ NInf = False"
| "js_lt NInf _ = True"
| "js_lt x y = (val x < val y)"

definition js_gt :: "jsnum \<Rightarrow> jsnum \<Rightarrow> bool" where
  "js_gt x y = js_lt y x"

definition js_le :: "jsnum \<Rightarrow> jsnum \<Rightarrow> bool" where
  "js_le x y = (x \<noteq> NaN \<and> y \<noteq> NaN \<and> \<not> js_lt y x)"

subsection \<open>Number to string\<close>

text \<open>
  \<^verbatim>\<open>Number::toString\<close> prints the shortest decimal digit string \<open>s\<close> (of \<open>k\<close> digits,
  scaled by \<open>10 powi (n - k)\<close>) that rounds back to the number, the closest one when
  several do, in plain notation for \<open>-6 < n \<le> 21\<close> and in exponent notation otherwise.
  \<^verbatim>\<open>toFixed(f)\<close> prints \<open>f\<close> fraction digits of the exact value, rounding half up in
  magnitude, and falls back to \<^verbatim>\<open>toString\<close> from \<open>10 ^ 21\<close>.
\<close>

definition digit_char :: "nat \<Rightarrow> char" where
  "digit_char n = ''0123456789'' ! (n mod 10)"

function digits :: "nat \<Rightarrow> string" where
  "digits n = (if n < 10 then [digit_char n] else digits (n div 10) @ [digit_char n])"
  by pat_completeness auto
termination
  by (relation "measure id") auto

declare digits.simps [simp del]

definition cands :: "rat \<Rightarrow> nat \<Rightarrow> int \<Rightarrow> (nat \<times> int) list" where
  "cands x k n =
     (let lo = nat \<lfloor>x / 10 powi (n - int k)\<rfloor>
      in map (\<lambda>s. (s, n))
           (filter (\<lambda>s. 10 ^ (k - 1) \<le> s \<and> s < 10 ^ k \<and>
                         rd (of_nat s * 10 powi (n - int k)) = Fin x)
              [lo, lo + 1]))"

definition cand_err :: "rat \<Rightarrow> nat \<Rightarrow> nat \<times> int \<Rightarrow> rat" where
  "cand_err x k c = \<bar>of_nat (fst c) * 10 powi (snd c - int k) - x\<bar>"

fun closest :: "rat \<Rightarrow> nat \<Rightarrow> nat \<times> int \<Rightarrow> (nat \<times> int) list \<Rightarrow> nat \<times> int" where
  "closest x k c [] = c"
| "closest x k c (d # ds) =
     (if cand_err x k d < cand_err x k c \<or>
         (cand_err x k d = cand_err x k c \<and> even (fst d) \<and> odd (fst c))
      then closest x k d ds else closest x k c ds)"

fun shortest :: "rat \<Rightarrow> int \<Rightarrow> nat list \<Rightarrow> nat \<times> nat \<times> int" where
  "shortest x n0 [] = (17, nat (rne (x / 10 powi (n0 - 17))), n0)"
| "shortest x n0 (k # ks) =
     (case cands x k (n0 - 1) @ cands x k n0 @ cands x k (n0 + 1) of
        [] \<Rightarrow> shortest x n0 ks
      | c # cs \<Rightarrow> (k, closest x k c cs))"

definition exp_part :: "int \<Rightarrow> string" where
  "exp_part n = ''e'' @ (if 0 \<le> n - 1 then ''+'' else ''-'') @ digits (nat \<bar>n - 1\<bar>)"

definition posToString :: "rat \<Rightarrow> string" where
  "posToString x =
     (let (k, s, n) = shortest x (ilog 10 x + 1) [1 ..< 18]; ds = digits s
      in if int k \<le> n \<and> n \<le> 21 then ds @ replicate (nat (n - int k)) CHR ''0''
         else if 0 < n \<and> n \<le> 21 then take (nat n) ds @ ''.'' @ drop (nat n) ds
         else if - 6 < n \<and> n \<le> 0 then ''0.'' @ replicate (nat (- n)) CHR ''0'' @ ds
         else if k = 1 then ds @ exp_part n
         else take 1 ds @ ''.'' @ drop 1 ds @ exp_part n)"

fun numToString :: "jsnum \<Rightarrow> string" where
  "numToString NaN = ''NaN''"
| "numToString PInf = ''Infinity''"
| "numToString NInf = ''-Infinity''"
| "numToString NZero = ''0''"
| "numToString (Fin q) =
     (if q = 0 then ''0'' else if q < 0 then ''-'' @ posToString (- q) else posToString q)"

definition fixed :: "nat \<Rightarrow> nat \<Rightarrow> string" where
  "fixed f n =
     (let m = digits n;
          m' = (if f \<noteq> 0 \<and> length m \<le> f then replicate (f + 1 - length m) CHR ''0'' @ m else m)
      in if f \<noteq> 0 then take (length m' - f) m' @ ''.'' @ drop (length m' - f) m' else m')"

fun toFixed :: "nat \<Rightarrow> jsnum \<Rightarrow> string" where
  "toFixed f NaN = ''NaN''"
| "toFixed f PInf = ''Infinity''"
| "toFixed f NInf = ''-Infinity''"
| "toFixed f NZero = fixed f 0"
| "toFixed f (Fin q) =
     (let s = (if q < 0 then ''-'' else [])
      in if 10 ^ 21 \<le> \<bar>q\<bar> then s @ posToString \<bar>q\<bar>
         else s @ fixed f (nat \<lfloor>\<bar>q\<bar> * 10 ^ f + 1 / 2\<rfloor>))"

subsection \<open>String to number\<close>

text \<open>
  \<^verbatim>\<open>parseFloat\<close> on a string skips leading white space and reads the longest prefix that
  is a decimal literal: an optional sign, then \<^verbatim>\<open>Infinity\<close> or digits with an optional
  fraction and an optional exponent. No such prefix gives \<open>NaN\<close>; what follows the
  prefix is ignored. Strings are lists of 8-bit code units.
\<close>

definition is_ws :: "char \<Rightarrow> bool" where
  "is_ws c = (c \<in> set [CHR 0x09, CHR 0x0A, CHR 0x0B, CHR 0x0C, CHR 0x0D, CHR 0x20, CHR 0xA0])"

definition is_digit :: "char \<Rightarrow> bool" where
  "is_digit c = (c \<in> set ''0123456789'')"

definition digit_val :: "char \<Rightarrow> nat" where
  "digit_val c = of_char c - 48"

definition digits_val :: "string \<Rightarrow> nat" where
  "digits_val ds = foldl (\<lambda>a c. 10 * a + digit_val c) 0 ds"

definition signed_digits :: "string \<Rightarrow> int" where
  "signed_digits r =
     (case r of
        [] \<Rightarrow> 0
      | c # r' \<Rightarrow>
          if c = CHR ''-'' then - int (digits_val (takeWhile is_digit r'))
          else if c = CHR ''+'' then int (digits_val (takeWhile is_digit r'))
          else int (digits_val (takeWhile is_digit r)))"

definition has_signed_digits :: "string \<Rightarrow> bool" where
  "has_signed_digits r =
     (case r of
        [] \<Rightarrow> False
      | c # r' \<Rightarrow>
          if c = CHR ''-'' \<or> c = CHR ''+'' then takeWhile is_digit r' \<noteq> []
          else is_digit c)"

definition parse_exp :: "string \<Rightarrow> int" where
  "parse_exp r =
     (case r of
        [] \<Rightarrow> 0
      | c # r' \<Rightarrow>
          if (c = CHR ''e'' \<or> c = CHR ''E'') \<and> has_signed_digits r' then signed_digits r' else 0)"

definition mv :: "bool \<Rightarrow> string \<Rightarrow> int \<Rightarrow> jsnum" where
  "mv neg ds e =
     (let q = of_nat (digits_val ds) * 10 powi e
      in if q = 0 then zero_s neg else rd (if neg then - q else q))"

definition str_decimal :: "bool \<Rightarrow> string \<Rightarrow> jsnum" where
  "str_decimal neg r =
     (if take 8 r = ''Infinity'' then inf_s neg
      else
        let ip = takeWhile is_digit r; r1 = dropWhile is_digit r
        in case r1 of
             [] \<Rightarrow> if ip = [] then NaN else mv neg ip 0
           | c # r2 \<Rightarrow>
               if c = CHR ''.'' then
                 (let fp = takeWhile is_digit r2; r3 = dropWhile is_digit r2
                  in if ip = [] \<and> fp = [] then NaN
                     else mv neg (ip @ fp) (parse_exp r3 - int (length fp)))
               else if ip = [] then NaN
               else mv neg ip (parse_exp r1))"

definition parseFloat_str :: "string \<Rightarrow> jsnum" where
  "parseFloat_str s =
     (let t = dropWhile is_ws s
      in case t of
           [] \<Rightarrow> NaN
         | c # r \<Rightarrow>
             if c = CHR ''-'' then str_decimal True r
             else if c = CHR ''+'' then str_decimal False r
             else str_decimal False t)"

section \<open>JavaScript values\<close>

text \<open>
  The values \<^verbatim>\<open>JSON.parse\<close> produces, and \<^verbatim>\<open>undefined\<close> for a property that is not
  there. An object is its list of own properties. \<open>get_prop\<close> reads a named property
  that no built-in prototype defines (\<^verbatim>\<open>levels\<close>, \<^verbatim>\<open>px\<close>, \<^verbatim>\<open>sz\<close>, \<^verbatim>\<open>channel\<close>,
  \<^verbatim>\<open>data\<close>, \<^verbatim>\<open>coin\<close>); \<open>get_index\<close> reads \<^verbatim>\<open>v[i]\<close>. Both throw a TypeError on
  \<^verbatim>\<open>null\<close> and \<^verbatim>\<open>undefined\<close>. \<open>toStringJs\<close> is the conversion to string that
  \<^verbatim>\<open>parseFloat\<close> and template literals apply: it throws on an object whose own
  \<^verbatim>\<open>toString\<close> property hides the inherited method.
\<close>

datatype jsval =
    JUndefined
  | JNull
  | JBool bool
  | JNum jsnum
  | JStr string
  | JArr "jsval list"
  | JObj "(string \<times> jsval) list"

datatype error = TypeError

definition truthy :: "jsval \<Rightarrow> bool" where
  "truthy v =
     (case v of
        JUndefined \<Rightarrow> False
      | JNull \<Rightarrow> False
      | JBool b \<Rightarrow> b
      | JNum x \<Rightarrow> x \<noteq> NaN \<and> \<not> is_zero x
      | JStr s \<Rightarrow> s \<noteq> []
      | JArr _ \<Rightarrow> True
      | JObj _ \<Rightarrow> True)"

fun get_prop :: "jsval \<Rightarrow> string \<Rightarrow> error + jsval" where
  "get_prop JUndefined k = Inl TypeError"
| "get_prop JNull k = Inl TypeError"
| "get_prop (JObj kvs) k = Inr (case map_of kvs k of None \<Rightarrow> JUndefined | Some v \<Rightarrow> v)"
| "get_prop v k = Inr JUndefined"

fun get_index :: "jsval \<Rightarrow> nat \<Rightarrow> error + jsval" where
  "get_index JUndefined i = Inl TypeError"
| "get_index JNull i = Inl TypeError"
| "get_index (JArr xs) i = Inr (if i < length xs then xs ! i else JUndefined)"
| "get_index (JStr s) i = Inr (if i < length s then JStr [s ! i] else JUndefined)"
| "get_index (JObj kvs) i = Inr (case map_of kvs (digits i) of None \<Rightarrow> JUndefined | Some v \<Rightarrow> v)"
| "get_index v i = Inr JUndefined"

fun toStringJs :: "jsval \<Rightarrow> error + string"
  and joinJs :: "jsval list \<Rightarrow> error + string" where
  "toStringJs JUndefined = Inr ''undefined''"
| "toStringJs JNull = Inr ''null''"
| "toStringJs (JBool b) = Inr (if b then ''true'' else ''false'')"
| "toStringJs (JNum x) = Inr (numToString x)"
| "toStringJs (JStr s) = Inr s"
| "toStringJs (JArr xs) = joinJs xs"
| "toStringJs (JObj kvs) =
     (if ''toString'' \<in> fst ` set kvs then Inl TypeError else Inr ''[object Object]'')"
| "joinJs [] = Inr []"
| "joinJs (x # xs) =
     (case (if x = JUndefined \<or> x = JNull then Inr [] else toStringJs x) of
        Inl e \<Rightarrow> Inl e
      | Inr s \<Rightarrow>
          if xs = [] then Inr s
          else (case joinJs xs of Inl e \<Rightarrow> Inl e | Inr t \<Rightarrow> Inr (s @ '','' @ t)))"

definition parseFloat :: "jsval \<Rightarrow> error + jsnum" where
  "parseFloat v = (case toStringJs v of Inl e \<Rightarrow> Inl e | Inr s \<Rightarrow> Inr (parseFloat_str s))"

section \<open>The snapshot transformer\<close>

text \<open>
  \<^verbatim>\<open>processOrderbookData(coin, l2Data)\<close>, lines 101-166 of \<^verbatim>\<open>yessave.ts\<close> and lines
  96-161 of \<^verbatim>\<open>nosave.ts\<close>. The globals \<^verbatim>\<open>spotSymbolMapping\<close> and \<^verbatim>\<open>allMidsCache\<close> and
  the text of \<^verbatim>\<open>new Date().toISOString()\<close> are parameters. The body of the
  \<^verbatim>\<open>try\<close> block returns \<open>Inl\<close> where the source throws; the \<^verbatim>\<open>catch\<close> block turns
  that into \<^verbatim>\<open>null\<close>, here \<open>None\<close>. \<open>array_of\<close> is the call of \<^verbatim>\<open>.map\<close>, which
  only an array has; \<open>px_sz\<close> is the callback \<^verbatim>\<open>level => ({price: level.px, size: level.sz})\<close>;
  \<open>top_yessave\<close> is the \<^verbatim>\<open>slice(...).map(...)\<close> that accumulates the running size.
\<close>

record PriceSize =
  ps_price :: jsval
  ps_size :: jsval

record OrderbookLevel =
  level :: nat
  price :: jsval
  size_f :: jsval
  cumulative :: string
  timestamp :: string

record CoinOrderbook =
  symbol :: string
  displaySymbol :: string
  lastUpdate :: string
  midPrice :: string
  spread :: string
  spreadPercentage :: string
  bids :: "OrderbookLevel list"
  asks :: "OrderbookLevel list"

definition bind_e :: "error + 'a \<Rightarrow> ('a \<Rightarrow> error + 'b) \<Rightarrow> error + 'b" where
  "bind_e m f = (case m of Inl e \<Rightarrow> Inl e | Inr v \<Rightarrow> f v)"

fun map_e :: "('a \<Rightarrow> error + 'b) \<Rightarrow> 'a list \<Rightarrow> error + 'b list" where
  "map_e f [] = Inr []"
| "map_e f (x # xs) =
     bind_e (f x) (\<lambda>y. bind_e (map_e f xs) (\<lambda>ys. Inr (y # ys)))"

definition array_of :: "jsval \<Rightarrow> error + jsval list" where
  "array_of v = (case v of JArr xs \<Rightarrow> Inr xs | _ \<Rightarrow> Inl TypeError)"

definition px_sz :: "jsval \<Rightarrow> error + PriceSize" where
  "px_sz lv =
     bind_e (get_prop lv ''px'') (\<lambda>p.
     bind_e (get_prop lv ''sz'') (\<lambda>s.
     Inr \<lparr>ps_price = p, ps_size = s\<rparr>))"

definition side :: "jsval \<Rightarrow> nat \<Rightarrow> error + PriceSize list" where
  "side l2Data i =
     bind_e (get_prop l2Data ''levels'') (\<lambda>lv.
     bind_e (get_index lv i) (\<lambda>s.
     bind_e (array_of s) (\<lambda>xs.
     map_e px_sz xs)))"

definition best :: "PriceSize list \<Rightarrow> error + jsnum" where
  "best xs = (case xs of [] \<Rightarrow> Inr (Fin 0) | x # _ \<Rightarrow> parseFloat (ps_price x))"

fun top_yessave :: "string \<Rightarrow> jsnum \<Rightarrow> nat \<Rightarrow> PriceSize list \<Rightarrow> error + OrderbookLevel list" where
  "top_yessave ts cum idx [] = Inr []"
| "top_yessave ts cum idx (b # bs) =
     bind_e (parseFloat (ps_size b)) (\<lambda>sz.
       let cum' = js_add cum sz
       in bind_e (top_yessave ts cum' (idx + 1) bs) (\<lambda>rest.
            Inr (\<lparr>level = idx + 1, price = ps_price b, size_f = ps_size b,
                  cumulative = toFixed 4 cum', timestamp = ts\<rparr> # rest)))"

definition try_yessave ::
  "(string \<rightharpoonup> string) \<Rightarrow> (string \<rightharpoonup> string) \<Rightarrow> string \<Rightarrow> string \<Rightarrow> jsval
     \<Rightarrow> error + CoinOrderbook" where
  "try_yessave spotSymbolMapping allMidsCache now coin l2Data =
     (let displaySym = (case spotSymbolMapping coin of
                          None \<Rightarrow> coin | Some d \<Rightarrow> if d = [] then coin else d);
          mid = (case allMidsCache coin of
                   None \<Rightarrow> ''0'' | Some m \<Rightarrow> if m = [] then ''0'' else m)
      in bind_e (side l2Data 0) (\<lambda>bs.
         bind_e (side l2Data 1) (\<lambda>as.
         bind_e (best bs) (\<lambda>bestBid.
         bind_e (best as) (\<lambda>bestAsk.
           let spr = js_sub bestAsk bestBid;
               pct = (if js_gt bestBid (Fin 0)
                      then toFixed 4 (js_mul (js_div spr bestBid) (Fin 100)) else ''0'');
               topBidsCount = min 10 (length bs);
               topAsksCount = min 10 (length as)
           in bind_e (top_yessave now (Fin 0) 0 (take topBidsCount bs)) (\<lambda>topBids.
              bind_e (top_yessave now (Fin 0) 0 (take topAsksCount as)) (\<lambda>topAsks.
                Inr \<lparr>symbol = coin, displaySymbol = displaySym, lastUpdate = now,
                     midPrice = mid, spread = toFixed 8 spr,
                     spreadPercentage = pct @ ''%'',
                     bids = topBids, asks = topAsks\<rparr>)))))))"

definition processOrderbookData_yessave ::
  "(string \<rightharpoonup> string) \<Rightarrow> (string \<rightharpoonup> string) \<Rightarrow> string \<Rightarrow> string \<Rightarrow> jsval
     \<Rightarrow> CoinOrderbook option" where
  "processOrderbookData_yessave spotSymbolMapping allMidsCache now coin l2Data =
     (case try_yessave spotSymbolMapping allMidsCache now coin l2Data of
        Inl e \<Rightarrow> None
      | Inr r \<Rightarrow> Some r)"

text \<open>The same function as \<^verbatim>\<open>nosave.ts\<close> writes it.\<close>

fun top_nosave :: "string \<Rightarrow> jsnum \<Rightarrow> nat \<Rightarrow> PriceSize list \<Rightarrow> error + OrderbookLevel list" where
  "top_nosave ts cum idx [] = Inr []"
| "top_nosave ts cum idx (b # bs) =
     bind_e (parseFloat (ps_size b)) (\<lambda>sz.
       let cum' = js_add cum sz
       in bind_e (top_nosave ts cum' (idx + 1) bs) (\<lambda>rest.
            Inr (\<lparr>level = idx + 1, price = ps_price b, size_f = ps_size b,
                  cumulative = toFixed 4 cum', timestamp = ts\<rparr> # rest)))"

definition try_nosave ::
  "(string \<rightharpoonup> string) \<Rightarrow> (string \<rightharpoonup> string) \<Rightarrow> string \<Rightarrow> string \<Rightarrow> jsval
     \<Rightarrow> error + CoinOrderbook" where
  "try_nosave spotSymbolMapping allMidsCache now coin l2Data =
     (let displaySym = (case spotSymbolMapping coin of
                          None \<Rightarrow> coin | Some d \<Rightarrow> if d = [] then coin else d);
          mid = (case allMidsCache coin of
                   None \<Rightarrow> ''0'' | Some m \<Rightarrow> if m = [] then ''0'' else m)
      in bind_e (side l2Data 0) (\<lambda>bs.
         bind_e (side l2Data 1) (\<lambda>as.
         bind_e (best bs) (\<lambda>bestBid.
         bind_e (best as) (\<lambda>bestAsk.
           let spr = js_sub bestAsk bestBid;
               pct = (if js_gt bestBid (Fin 0)
                      then toFixed 4 (js_mul (js_div spr bestBid) (Fin 100)) else ''0'');
               topBidsCount = min 10 (length bs);
               topAsksCount = min 10 (length as)
           in bind_e (top_nosave now (Fin 0) 0 (take topBidsCount bs)) (\<lambda>topBids.
              bind_e (top_nosave now (Fin 0) 0 (take topAsksCount as)) (\<lambda>topAsks.
                Inr \<lparr>symbol = coin, displaySymbol = displaySym, lastUpdate = now,
                     midPrice = mid, spread = toFixed 8 spr,
                     spreadPercentage = pct @ ''%'',
                     bids = topBids, asks = topAsks\<rparr>)))))))"

definition processOrderbookData_nosave ::
  "(string \<rightharpoonup> string) \<Rightarrow> (string \<rightharpoonup> string) \<Rightarrow> string \<Rightarrow> string \<Rightarrow> jsval
     \<Rightarrow> CoinOrderbook option" where
  "processOrderbookData_nosave spotSymbolMapping allMidsCache now coin l2Data =
     (case try_nosave spotSymbolMapping allMidsCache now coin l2Data of
        Inl e \<Rightarrow> None
      | Inr r \<Rightarrow> Some r)"

section \<open>The message handlers\<close>

text \<open>
  \<^verbatim>\<open>ws.on('message', ...)\<close> of both variants, as functions from the state before the
  message to the state after it. The argument is the result of \<^verbatim>\<open>JSON.parse\<close>, \<open>None\<close>
  when it throws. The handler's outer \<^verbatim>\<open>catch\<close> swallows every exception, so a
  throwing step leaves the state as the steps before it made it. The console holds the
  failure lines of the transformer and the status lines of the handler, without the
  elapsed time and the rate, which depend on the clock. A status line is not written
  when \<^verbatim>\<open>price.padEnd\<close> throws, that is when the first price of a side is not a string.
\<close>

datatype console_line =
    ErrorLine string
  | StatusLine nat string string string "nat option"

definition padEnd :: "nat \<Rightarrow> string \<Rightarrow> string" where
  "padEnd n s = s @ replicate (n - length s) CHR '' ''"

definition first_price :: "OrderbookLevel list \<Rightarrow> error + string" where
  "first_price ls =
     (case ls of
        [] \<Rightarrow> Inr ''undefined''
      | l # _ \<Rightarrow> (case price l of JStr s \<Rightarrow> Inr (padEnd 12 s) | _ \<Rightarrow> Inl TypeError))"

definition status_line :: "nat \<Rightarrow> CoinOrderbook \<Rightarrow> nat option \<Rightarrow> error + console_line" where
  "status_line n cd q =
     bind_e (first_price (bids cd)) (\<lambda>b.
     bind_e (first_price (asks cd)) (\<lambda>a.
     Inr (StatusLine n (padEnd 20 (displaySymbol cd)) b a q)))"

definition startsWith_at :: "string \<Rightarrow> bool" where
  "startsWith_at s = (take 1 s = ''@'')"

record StateA =
  spotSymbolMappingA :: "string \<rightharpoonup> string"
  allMidsCacheA :: "string \<rightharpoonup> string"
  processCountA :: nat
  latestOrderbooks :: "string \<rightharpoonup> CoinOrderbook"
  consoleA :: "console_line list"

definition onMessage_nosave :: "string \<Rightarrow> jsval option \<Rightarrow> StateA \<Rightarrow> StateA" where
  "onMessage_nosave now parsed st =
     (case parsed of
        None \<Rightarrow> st
      | Some message \<Rightarrow>
          (case get_prop message ''channel'' of
             Inl e \<Rightarrow> st
           | Inr ch \<Rightarrow>
               (case get_prop message ''data'' of
                  Inl e \<Rightarrow> st
                | Inr l2 \<Rightarrow>
               if ch = JStr ''l2Book'' \<and> truthy l2
               then
                 (case get_prop l2 ''coin'' of
                    Inr (JStr coin) \<Rightarrow>
                      if \<not> startsWith_at coin then st
                      else
                        let st1 = st\<lparr>processCountA := processCountA st + 1\<rparr>
                        in (case processOrderbookData_nosave (spotSymbolMappingA st1)
                                   (allMidsCacheA st1) now coin l2 of
                              None \<Rightarrow> st1\<lparr>consoleA := consoleA st1 @ [ErrorLine coin]\<rparr>
                            | Some cd \<Rightarrow>
                                let st2 = st1\<lparr>latestOrderbooks :=
                                                (latestOrderbooks st1)(symbol cd \<mapsto> cd)\<rparr>
                                in (case status_line (processCountA st2) cd None of
                                      Inl e \<Rightarrow> st2
                                    | Inr line \<Rightarrow> st2\<lparr>consoleA := consoleA st2 @ [line]\<rparr>))
                  | _ \<Rightarrow> st)
               else st)))"

text \<open>
  Mode B (\<^verbatim>\<open>yessave.ts\<close>). A save promise is a number; \<open>saveQueue\<close> is the set
  \<^verbatim>\<open>saveQueue\<close> in insertion order, \<open>handedOff\<close> the calls of
  \<^verbatim>\<open>saveOrderbookToFile\<close> made so far, \<open>settled\<close> the save promises that have
  settled. Line 281 calls \<^verbatim>\<open>Promise.race\<close> and drops the promise it returns:
  \<open>racesDiscarded\<close> counts these calls. \<open>drainWaits\<close> holds, for every run of the
  \<^verbatim>\<open>SIGINT\<close> handler that is suspended at its \<^verbatim>\<open>await\<close>, the promises it waits for.
\<close>

record StateB =
  isRunning :: bool
  spotSymbolMapping :: "string \<rightharpoonup> string"
  allMidsCache :: "string \<rightharpoonup> string"
  processCount :: nat
  updateCount :: nat
  updatedCoins :: "string set"
  saveQueue :: "nat list"
  promisesCreated :: nat
  handedOff :: "(nat \<times> CoinOrderbook) list"
  settled :: "nat set"
  racesDiscarded :: nat
  console :: "console_line list"
  drainWaits :: "nat list list"
  exited :: bool

definition onMessage_yessave :: "string \<Rightarrow> jsval option \<Rightarrow> StateB \<Rightarrow> StateB" where
  "onMessage_yessave now parsed st =
     (case parsed of
        None \<Rightarrow> st
      | Some message \<Rightarrow>
          (case get_prop message ''channel'' of
             Inl e \<Rightarrow> st
           | Inr ch \<Rightarrow>
               (case get_prop message ''data'' of
                  Inl e \<Rightarrow> st
                | Inr l2 \<Rightarrow>
               if ch = JStr ''l2Book'' \<and> truthy l2
               then
                 (case get_prop l2 ''coin'' of
                    Inr (JStr coin) \<Rightarrow>
                      if \<not> startsWith_at coin then st
                      else
                        let st1 = st\<lparr>processCount := processCount st + 1\<rparr>
                        in (case processOrderbookData_yessave (spotSymbolMapping st1)
                                   (allMidsCache st1) now coin l2 of
                              None \<Rightarrow> st1\<lparr>console := console st1 @ [ErrorLine coin]\<rparr>
                            | Some cd \<Rightarrow>
                                let savePromise = promisesCreated st1;
                                    st2 = st1\<lparr>updatedCoins :=
                                                insert (displaySymbol cd) (updatedCoins st1),
                                              updateCount := updateCount st1 + 1,
                                              promisesCreated := savePromise + 1,
                                              handedOff := handedOff st1 @ [(savePromise, cd)],
                                              saveQueue := saveQueue st1 @ [savePromise]\<rparr>;
                                    st3 = (if 100 < length (saveQueue st2)
                                           then st2\<lparr>racesDiscarded := racesDiscarded st2 + 1\<rparr>
                                           else st2)
                                in (case status_line (processCount st3) cd
                                           (Some (length (saveQueue st3))) of
                                      Inl e \<Rightarrow> st3
                                    | Inr line \<Rightarrow> st3\<lparr>console := console st3 @ [line]\<rparr>))
                  | _ \<Rightarrow> st)
               else st)))"

text \<open>
  The event loop runs one callback at a time: a message, the \<^verbatim>\<open>finally\<close> callback of a
  save promise (\<^verbatim>\<open>saveOrderbookToFile\<close> catches its own errors, so the promise settles
  whether the writes succeed or fail), a refresh of the mid prices, the \<^verbatim>\<open>SIGINT\<close>
  handler of lines 35-47, and the continuation of that handler after
  \<^verbatim>\<open>await Promise.all(Array.from(saveQueue))\<close>, which runs once every promise of the
  awaited array has settled and then calls \<^verbatim>\<open>process.exit(0)\<close>. Nothing runs after exit.
\<close>

datatype event =
    Message string "jsval option"
  | SaveSettled nat
  | MidsRefreshed "string \<rightharpoonup> string"
  | Sigint
  | DrainResumed

definition step :: "StateB \<Rightarrow> event \<Rightarrow> StateB" where
  "step st ev =
     (if exited st then st
      else case ev of
        Message now parsed \<Rightarrow> onMessage_yessave now parsed st
      | SaveSettled p \<Rightarrow>
          if p \<in> set (saveQueue st)
          then st\<lparr>saveQueue := removeAll p (saveQueue st), settled := insert p (settled st)\<rparr>
          else st
      | MidsRefreshed m \<Rightarrow> st\<lparr>allMidsCache := m\<rparr>
      | Sigint \<Rightarrow>
          if saveQueue st = [] then st\<lparr>isRunning := False, exited := True\<rparr>
          else st\<lparr>isRunning := False, drainWaits := saveQueue st # drainWaits st\<rparr>
      | DrainResumed \<Rightarrow>
          if list_ex (\<lambda>w. list_all (\<lambda>p. p \<in> settled st) w) (drainWaits st)
          then st\<lparr>exited := True\<rparr>
          else st)"

definition run :: "StateB \<Rightarrow> event list \<Rightarrow> StateB" where
  "run st evs = foldl step st evs"

definition initB :: "(string \<rightharpoonup> string) \<Rightarrow> (string \<rightharpoonup> string) \<Rightarrow> StateB" where
  "initB sm mids =
     \<lparr>isRunning = True, spotSymbolMapping = sm, allMidsCache = mids, processCount = 0,
      updateCount = 0, updatedCoins = {}, saveQueue = [], promisesCreated = 0,
      handedOff = [], settled = {}, racesDiscarded = 0, console = [],
      drainWaits = [], exited = False\<rparr>"

section \<open>The tabular file\<close>

text \<open>The CSV text that \<^verbatim>\<open>saveOrderbookToFile\<close> builds, lines 183-193 of \<^verbatim>\<open>yessave.ts\<close>.\<close>

definition csvHeader :: string where
  "csvHeader = ''Side,Level,Price,Size,Cumulative,Timestamp'' @ [CHR 0x0A]"

definition csv_row :: "string \<Rightarrow> OrderbookLevel \<Rightarrow> error + string" where
  "csv_row sd l =
     bind_e (toStringJs (price l)) (\<lambda>p.
     bind_e (toStringJs (size_f l)) (\<lambda>s.
     Inr (sd @ '','' @ digits (level l) @ '','' @ p @ '','' @ s @ '','' @ cumulative l
            @ '','' @ timestamp l)))"

fun join_nl :: "string list \<Rightarrow> string" where
  "join_nl [] = []"
| "join_nl [r] = r"
| "join_nl (r # rs) = r @ [CHR 0x0A] @ join_nl rs"

definition csvContent :: "CoinOrderbook \<Rightarrow> error + string" where
  "csvContent coinData =
     bind_e (map_e (csv_row ''BID'') (bids coinData)) (\<lambda>bs.
     bind_e (map_e (csv_row ''ASK'') (asks coinData)) (\<lambda>as.
     Inr (csvHeader @ join_nl (bs @ as))))"
section \<open>Inputs used in the examples\<close>

text \<open>A level as the feed sends it, and a snapshot with the two sides of the book.\<close>

definition level_obj :: "string \<Rightarrow> string \<Rightarrow> jsval" where
  "level_obj p s = JObj [(''px'', JStr p), (''sz'', JStr s)]"

definition snapshot :: "jsval list \<Rightarrow> jsval list \<Rightarrow> jsval" where
  "snapshot bs as = JObj [(''levels'', JArr [JArr bs, JArr as])]"

definition example_snapshot :: jsval where
  "example_snapshot =
     snapshot [level_obj ''100.00'' ''2'', level_obj ''99.50'' ''3'']
              [level_obj ''100.50'' ''1'', level_obj ''101.00'' ''4'']"

text \<open>Further inputs: snapshots with no level at all, a non-numeric price, a level without
  fields, one bid and no ask, an infinite price, a payload without \<^verbatim>\<open>levels\<close>, and a
  message on the \<^verbatim>\<open>l2Book\<close> channel.\<close>

definition empty_snapshot :: jsval where
  "empty_snapshot = snapshot [] []"

definition non_numeric_snapshot :: jsval where
  "non_numeric_snapshot = snapshot [level_obj ''abc'' ''2''] []"

definition missing_fields_snapshot :: jsval where
  "missing_fields_snapshot = snapshot [JObj []] []"

definition no_levels_payload :: jsval where
  "no_levels_payload = JObj [(''coin'', JStr ''@1'')]"

definition l2Book_message :: "jsval \<Rightarrow> jsval" where
  "l2Book_message l2Data = JObj [(''channel'', JStr ''l2Book''), (''data'', l2Data)]"

definition bid_only_snapshot :: jsval where
  "bid_only_snapshot = snapshot [level_obj ''100'' ''2''] []"

definition infinite_bid_snapshot :: jsval where
  "infinite_bid_snapshot = snapshot [level_obj ''Infinity'' ''2''] []"

section \<open>Shapes of raw snapshots\<close>

text \<open>
  \<open>side_entries l2Data i\<close> is the array \<^verbatim>\<open>l2Data.levels[i]\<close> when there is one. A
  snapshot is structurally malformed when one of the two side arrays is missing (no
  \<^verbatim>\<open>levels\<close>, a side that is absent or not an array) or holds a \<^verbatim>\<open>null\<close> entry.
  \<open>string_sizes\<close> says that every size of a side is a string, as the feed sends it.
\<close>

definition nullish :: "jsval \<Rightarrow> bool" where
  "nullish v = (v = JNull \<or> v = JUndefined)"

definition side_entries :: "jsval \<Rightarrow> nat \<Rightarrow> jsval list option" where
  "side_entries l2Data i =
     (case bind_e (get_prop l2Data ''levels'') (\<lambda>lv. get_index lv i) of
        Inr (JArr xs) \<Rightarrow> Some xs
      | _ \<Rightarrow> None)"

definition structurally_malformed :: "jsval \<Rightarrow> bool" where
  "structurally_malformed l2Data =
     (case side_entries l2Data 0 of
        None \<Rightarrow> True
      | Some bs \<Rightarrow>
          list_ex nullish bs \<or>
          (case side_entries l2Data 1 of None \<Rightarrow> True | Some as \<Rightarrow> list_ex nullish as))"

definition string_sizes :: "PriceSize list \<Rightarrow> bool" where
  "string_sizes xs = list_all (\<lambda>l. case ps_size l of JStr s \<Rightarrow> True | _ \<Rightarrow> False) xs"

text \<open>Either variant of the transformer.\<close>

definition transformer ::
  "((string \<rightharpoonup> string) \<Rightarrow> (string \<rightharpoonup> string) \<Rightarrow> string \<Rightarrow> string \<Rightarrow> jsval
     \<Rightarrow> CoinOrderbook option) \<Rightarrow> bool" where
  "transformer f = (f = processOrderbookData_nosave \<or> f = processOrderbookData_yessave)"

section \<open>Classes of messages and runs of the handler\<close>

text \<open>
  The three conditions of the dispatch filter, read off a parsed message: it is on the
  \<^verbatim>\<open>l2Book\<close> channel, it has a (truthy) \<^verbatim>\<open>data\<close> payload, and its
  \<^verbatim>\<open>data.coin\<close> is a string that starts with \<^verbatim>\<open>@\<close>. Then a message on another
  channel, the initial state of mode A, a valid payload for the coin \<^verbatim>\<open>@1\<close> with the
  record that the transformer makes of it, and two invariants of the runs of mode B.
\<close>

definition on_l2Book :: "jsval \<Rightarrow> bool" where
  "on_l2Book m = (get_prop m ''channel'' = Inr (JStr ''l2Book''))"

definition has_payload :: "jsval \<Rightarrow> bool" where
  "has_payload m = (case get_prop m ''data'' of Inl e \<Rightarrow> False | Inr d \<Rightarrow> truthy d)"

definition tracked_symbol :: "jsval \<Rightarrow> bool" where
  "tracked_symbol m =
     (case bind_e (get_prop m ''data'') (\<lambda>d. get_prop d ''coin'') of
        Inr (JStr c) \<Rightarrow> startsWith_at c
      | _ \<Rightarrow> False)"

definition trades_message :: jsval where
  "trades_message = JObj [(''channel'', JStr ''trades''), (''data'', JArr [])]"

definition initA :: "(string \<rightharpoonup> string) \<Rightarrow> (string \<rightharpoonup> string) \<Rightarrow> StateA" where
  "initA sm mids =
     \<lparr>spotSymbolMappingA = sm, allMidsCacheA = mids, processCountA = 0,
      latestOrderbooks = Map.empty, consoleA = []\<rparr>"

definition example_payload :: jsval where
  "example_payload =
     JObj [(''coin'', JStr ''@1''),
           (''levels'', JArr [JArr [level_obj ''100.00'' ''2'', level_obj ''99.50'' ''3''],
                              JArr [level_obj ''100.50'' ''1'', level_obj ''101.00'' ''4'']])]"

definition example_record :: "string \<Rightarrow> CoinOrderbook" where
  "example_record now =
     \<lparr>symbol = ''@1'', displaySymbol = ''@1'', lastUpdate = now, midPrice = ''0'',
      spread = ''0.50000000'', spreadPercentage = ''0.5000%'',
      bids = [\<lparr>level = 1, price = JStr ''100.00'', size_f = JStr ''2'',
               cumulative = ''2.0000'', timestamp = now\<rparr>,
              \<lparr>level = 2, price = JStr ''99.50'', size_f = JStr ''3'',
               cumulative = ''5.0000'', timestamp = now\<rparr>],
      asks = [\<lparr>level = 1, price = JStr ''100.50'', size_f = JStr ''1'',
               cumulative = ''1.0000'', timestamp = now\<rparr>,
              \<lparr>level = 2, price = JStr ''101.00'', size_f = JStr ''4'',
               cumulative = ''5.0000'', timestamp = now\<rparr>]\<rparr>"

text \<open>Every promise handed off is still queued or has settled.\<close>

definition accounted :: "StateB \<Rightarrow> bool" where
  "accounted st = (fst ` set (handedOff st) = set (saveQueue st) \<union> settled st)"

text \<open>The drain invariant for a set \<open>Q\<close> of promises.\<close>

definition draining :: "nat set \<Rightarrow> StateB \<Rightarrow> bool" where
  "draining Q st =
     (if exited st then Q \<subseteq> settled st
      else Q - settled st \<subseteq> set (saveQueue st) \<and>
           list_all (\<lambda>w. Q - settled st \<subseteq> set w) (drainWaits st))"

section \<open>Valid snapshots and the selected levels\<close>

text \<open>
  \<open>field lv k\<close> is the property \<open>k\<close> of a level (\<^verbatim>\<open>undefined\<close> when there is none). A
  level is valid when its price and its size are strings and the size parses to a number
  that is not below zero. \<open>running c xs\<close> is the sequence of running sums of \<open>xs\<close> from
  \<open>c\<close>, each sum rounded as \<^verbatim>\<open>+=\<close> rounds it. \<open>selected now xs ls\<close> says that the
  output levels \<open>ls\<close> are the first \<open>min 10 (length xs)\<close> entries of the raw side
  \<open>xs\<close> in feed order, numbered from 1, with the running sums of their sizes as
  cumulative fields, and that these sums do not decrease. \<open>ps_of\<close> is the object that
  the callback of \<^verbatim>\<open>.map\<close> makes of a level.
\<close>

definition field :: "jsval \<Rightarrow> string \<Rightarrow> jsval" where
  "field lv k = (case get_prop lv k of Inl e \<Rightarrow> JUndefined | Inr v \<Rightarrow> v)"

definition size_num :: "jsval \<Rightarrow> jsnum" where
  "size_num lv = (case field lv ''sz'' of JStr s \<Rightarrow> parseFloat_str s | _ \<Rightarrow> NaN)"

definition valid_level :: "jsval \<Rightarrow> bool" where
  "valid_level lv =
     (case field lv ''px'' of
        JStr p \<Rightarrow> (case field lv ''sz'' of JStr s \<Rightarrow> js_le (Fin 0) (parseFloat_str s) | _ \<Rightarrow> False)
      | _ \<Rightarrow> False)"

fun running :: "jsnum \<Rightarrow> jsnum list \<Rightarrow> jsnum list" where
  "running c [] = []"
| "running c (x # xs) = js_add c x # running (js_add c x) xs"

definition selected :: "string \<Rightarrow> jsval list \<Rightarrow> OrderbookLevel list \<Rightarrow> bool" where
  "selected now xs ls =
     (length ls \<le> 10 \<and> length ls = min 10 (length xs) \<and>
      map price ls = map (\<lambda>lv. field lv ''px'') (take (min 10 (length xs)) xs) \<and>
      map size_f ls = map (\<lambda>lv. field lv ''sz'') (take (min 10 (length xs)) xs) \<and>
      map timestamp ls = replicate (length ls) now \<and>
      map level ls = [1 ..< Suc (length ls)] \<and> sorted_wrt (<) (map level ls) \<and>
      map cumulative ls =
        map (toFixed 4) (running (Fin 0) (map size_num (take (min 10 (length xs)) xs))) \<and>
      sorted_wrt js_le (running (Fin 0) (map size_num (take (min 10 (length xs)) xs))))"

definition ps_of :: "jsval \<Rightarrow> PriceSize" where
  "ps_of lv = \<lparr>ps_price = field lv ''px'', ps_size = field lv ''sz''\<rparr>"

section \<open>Reading the tabular file back\<close>

text \<open>
  The (side, level, price, size, cumulative) tuples of a record held in memory, bids first
  then asks, with the side written as the tabular file writes it.
\<close>

definition tuples :: "CoinOrderbook \<Rightarrow> (string \<times> nat \<times> jsval \<times> jsval \<times> string) list" where
  "tuples coinData =
     map (\<lambda>l. (''BID'', level l, price l, size_f l, cumulative l)) (bids coinData) @
     map (\<lambda>l. (''ASK'', level l, price l, size_f l, cumulative l)) (asks coinData)"

text \<open>
  Modelled from the spec: re-parsing the tabular form. The program has no reader for the
  file it writes, so the reader is the plain one that the layout implies: \<open>split_on c s\<close>
  cuts \<open>s\<close> at every occurrence of the separator \<open>c\<close>.
\<close>

fun split_on :: "char \<Rightarrow> string \<Rightarrow> string list" where
  "split_on c [] = [[]]"
| "split_on c (x # xs) =
     (if x = c then [] # split_on c xs
      else (case split_on c xs of [] \<Rightarrow> [[x]] | y # ys \<Rightarrow> (x # y) # ys))"

text \<open>
  Modelled from the spec: a row is read as its six fields cut at the commas, side, level,
  price, size, cumulative and timestamp; the side is \<^verbatim>\<open>BID\<close> or \<^verbatim>\<open>ASK\<close>, the level a decimal
  numeral, and the price and the size are the texts of their fields. Any other row is not
  read.
\<close>

definition parse_row :: "string \<Rightarrow> (string \<times> nat \<times> jsval \<times> jsval \<times> string) option" where
  "parse_row row =
     (case split_on CHR '','' row of
        [sd, lv, p, s, cu, ts] \<Rightarrow>
          if (sd = ''BID'' \<or> sd = ''ASK'') \<and> lv \<noteq> [] \<and> list_all is_digit lv
          then Some (sd, digits_val lv, JStr p, JStr s, cu)
          else None
      | _ \<Rightarrow> None)"

text \<open>
  Modelled from the spec: the file is read as its lines cut at the line feeds, the header
  line first, then one row for each level; a file with the header line alone has no rows.
\<close>

definition parse_csv :: "string \<Rightarrow> (string \<times> nat \<times> jsval \<times> jsval \<times> string) list option" where
  "parse_csv text =
     (case split_on (CHR 0x0A) text of
        [] \<Rightarrow> None
      | header # rows \<Rightarrow>
          if header \<noteq> ''Side,Level,Price,Size,Cumulative,Timestamp'' then None
          else if rows = [[]] then Some []
          else those (map parse_row rows))"

text \<open>
  A text is plain when it has no comma and no line feed. A level is safe for the tabular
  file when its price and its size are strings and these, its cumulative field and its
  timestamp are plain.
\<close>

definition plain :: "string \<Rightarrow> bool" where
  "plain s = (CHR '','' \<notin> set s \<and> CHR 0x0A \<notin> set s)"

definition csv_safe :: "OrderbookLevel \<Rightarrow> bool" where
  "csv_safe l =
     (case price l of
        JStr p \<Rightarrow>
          (case size_f l of
             JStr s \<Rightarrow> plain p \<and> plain s \<and> plain (cumulative l) \<and> plain (timestamp l)
           | _ \<Rightarrow> False)
      | _ \<Rightarrow> False)"

text \<open>
  Two raw snapshots with one bid each, whose price and size differ only in the place of
  a comma, and the records that the transformer makes of them.
\<close>

definition comma_price_snapshot :: jsval where
  "comma_price_snapshot = snapshot [level_obj ''1,2'' ''2''] []"

definition comma_size_snapshot :: jsval where
  "comma_size_snapshot = snapshot [level_obj ''1'' ''2,2''] []"

definition comma_price_record :: CoinOrderbook where
  "comma_price_record =
     \<lparr>symbol = ''@1'', displaySymbol = ''@1'', lastUpdate = ''t'', midPrice = ''0'',
      spread = ''-1.00000000'', spreadPercentage = ''-100.0000%'',
      bids = [\<lparr>level = 1, price = JStr ''1,2'', size_f = JStr ''2'',
               cumulative = ''2.0000'', timestamp = ''t''\<rparr>],
      asks = []\<rparr>"

definition comma_size_record :: CoinOrderbook where
  "comma_size_record =
     \<lparr>symbol = ''@1'', displaySymbol = ''@1'', lastUpdate = ''t'', midPrice = ''0'',
      spread = ''-1.00000000'', spreadPercentage = ''-100.0000%'',
      bids = [\<lparr>level = 1, price = JStr ''1'', size_f = JStr ''2,2'',
               cumulative = ''2.0000'', timestamp = ''t''\<rparr>],
      asks = []\<rparr>"

text \<open>
  The row that the file has for a level that is safe.
\<close>

definition row_of :: "string \<Rightarrow> OrderbookLevel \<Rightarrow> string" where
  "row_of sd l =
     sd @ '','' @ digits (level l) @ '','' @ (case price l of JStr p \<Rightarrow> p | _ \<Rightarrow> [])
        @ '','' @ (case size_f l of JStr s \<Rightarrow> s | _ \<Rightarrow> []) @ '','' @ cumulative l
        @ '','' @ timestamp l"

section \<open>Properties\<close>




subsection \<open>Integer logarithms and rounding\<close>

lemma flog_nonneg: "0 \<le> flog b n"
  by (induction b n rule: flog.induct) (subst flog.simps, simp)

lemma flog_bounds:
  "2 \<le> b \<Longrightarrow> 1 \<le> n \<Longrightarrow> b ^ nat (flog b n) \<le> n \<and> n < b ^ nat (flog b n + 1)"
proof (induction b n rule: flog.induct)
  case (1 b n)
  show ?case
  proof (cases "n < b")
    case True
    then show ?thesis using 1(2,3) by (subst (1 2) flog.simps) simp
  next
    case False
    then have nb: "\<not> (b < 2 \<or> n < b)" using 1(2) by simp
    have "0 < n div b" using False 1(2) by (simp add: pos_imp_zdiv_pos_iff)
    then have d1: "1 \<le> n div b" by simp
    from 1(1)[OF nb 1(2) d1]
    have ih: "b ^ nat (flog b (n div b)) \<le> n div b" "n div b < b ^ nat (flog b (n div b) + 1)"
      by simp_all
    have f: "flog b n = 1 + flog b (n div b)"
      using nb by (subst flog.simps) simp
    have nn: "0 \<le> flog b (n div b)" by (rule flog_nonneg)
    have e: "b * (n div b) + n mod b = n" by simp
    have m: "0 \<le> n mod b" "n mod b < b" using 1(2) by simp_all
    have ex: "b * (n div b + 1) = b * (n div b) + b" by (simp add: algebra_simps)
    have dm: "b * (n div b) \<le> n" "n < b * (n div b + 1)"
      using e m ex by linarith+
    have lo: "b ^ nat (1 + flog b (n div b)) \<le> n"
    proof -
      have "b ^ nat (1 + flog b (n div b)) = b * b ^ nat (flog b (n div b))"
        using nn by (simp add: nat_add_distrib)
      also have "\<dots> \<le> b * (n div b)" using ih(1) 1(2) by (simp add: mult_left_mono)
      also have "\<dots> \<le> n" by (rule dm)
      finally show ?thesis .
    qed
    have hi: "n < b ^ nat (1 + flog b (n div b) + 1)"
    proof -
      have "n div b + 1 \<le> b ^ nat (flog b (n div b) + 1)" using ih(2) by simp
      then have "b * (n div b + 1) \<le> b * b ^ nat (flog b (n div b) + 1)"
        using 1(2) by (simp add: mult_left_mono)
      moreover have "b * b ^ nat (flog b (n div b) + 1) = b ^ nat (1 + flog b (n div b) + 1)"
        using nn by (simp add: nat_add_distrib)
      ultimately show ?thesis using dm(2) by simp
    qed
    show ?thesis using lo hi f by simp
  qed
qed

lemma powi_nat: "0 \<le> e \<Longrightarrow> (x::rat) powi e = x ^ nat e"
  by (simp add: power_int_def)

lemma ilog_bounds:
  assumes b: "2 \<le> b" and q: "0 < q"
  shows "of_int b powi (ilog b q) \<le> q \<and> q < of_int b powi (ilog b q + 1)"
proof -
  obtain n d where nd: "quotient_of q = (n, d)" by (cases "quotient_of q")
  have d0: "0 < d" using nd quotient_of_denom_pos by blast
  have qe: "q = of_int n / of_int d" using nd quotient_of_div by blast
  have n0: "0 < n" using q qe d0 by (simp add: zero_less_divide_iff)
  define B :: rat where "B = of_int b"
  have B1: "1 < B" "0 < B" "B \<noteq> 0" using b by (simp_all add: B_def)
  let ?e = "flog b n - flog b d"
  have bn: "b ^ nat (flog b n) \<le> n" "n < b ^ nat (flog b n + 1)"
    using flog_bounds[OF b, of n] n0 by simp_all
  have bd: "b ^ nat (flog b d) \<le> d" "d < b ^ nat (flog b d + 1)"
    using flog_bounds[OF b, of d] d0 by simp_all
  have pw: "B powi e = of_int (b ^ nat e)" if "0 \<le> e" for e
    using that by (simp add: B_def powi_nat)
  have fn: "0 \<le> flog b n" "0 \<le> flog b n + 1" "0 \<le> flog b d" "0 \<le> flog b d + 1"
    using flog_nonneg[of b n] flog_nonneg[of b d] by simp_all
  have rn: "B powi flog b n \<le> of_int n" "of_int n < B powi (flog b n + 1)"
    unfolding pw[OF fn(1)] pw[OF fn(2)] using bn by (simp_all only: of_int_le_iff of_int_less_iff)
  have rd': "B powi flog b d \<le> of_int d" "of_int d < B powi (flog b d + 1)"
    unfolding pw[OF fn(3)] pw[OF fn(4)] using bd by (simp_all only: of_int_le_iff of_int_less_iff)
  have P: "0 < B powi k" for k using B1 by simp
  have lo: "B powi (?e - 1) < q"
  proof -
    have "?e - 1 = flog b n - (flog b d + 1)" by simp
    then have "B powi (?e - 1) = B powi (flog b n - (flog b d + 1))" by (rule arg_cong)
    also have "\<dots> = B powi flog b n / B powi (flog b d + 1)"
      by (rule power_int_diff) (use B1 in simp)
    also have "\<dots> < of_int n / of_int d"
      using P rn(1) d0 rd'(2) by (intro frac_less2) simp_all
    finally show ?thesis by (simp add: qe)
  qed
  have hi: "q < B powi (?e + 1)"
  proof -
    have "of_int n / of_int d < B powi (flog b n + 1) / B powi flog b d"
      using P rn(2) n0 rd'(1) by (intro frac_less) simp_all
    also have "\<dots> = B powi (flog b n + 1 - flog b d)"
      by (rule power_int_diff[symmetric]) (use B1 in simp)
    also have "\<dots> = B powi (?e + 1)"
      by (rule arg_cong[where f = "\<lambda>k. B powi k"]) simp
    finally show ?thesis by (simp add: qe)
  qed
  have il: "ilog b q = (if B powi ?e \<le> q then ?e else ?e - 1)"
    by (simp add: ilog_def nd B_def Let_def)
  show ?thesis
  proof (cases "B powi ?e \<le> q")
    case True
    then show ?thesis using hi il by (simp add: B_def)
  next
    case False
    then have "q < B powi ?e" by simp
    then show ?thesis using lo il False by (simp add: B_def)
  qed
qed

lemma powi_mono: "e1 \<le> e2 \<Longrightarrow> (2::rat) powi e1 \<le> 2 powi e2"
  by (rule power_int_increasing) simp_all

lemma ilog_unique:
  assumes "2 \<le> b" "of_int b powi e \<le> q" "q < of_int b powi (e + 1)"
  shows "ilog b q = e"
proof -
  define B :: rat where "B = of_int b"
  have B1: "1 < B" using assms(1) by (simp add: B_def)
  have "0 < B powi e" using B1 by simp
  then have q: "0 < q" using assms(2) by (simp add: B_def)
  from ilog_bounds[OF assms(1) q]
  have ib: "B powi ilog b q \<le> q" "q < B powi (ilog b q + 1)" by (simp_all add: B_def)
  have "B powi ilog b q < B powi (e + 1)" using ib(1) assms(3) by (simp add: B_def)
  then have a: "ilog b q < e + 1"
    using B1 power_int_increasing[of "e + 1" "ilog b q" B] by (cases "ilog b q < e + 1") simp_all
  have "B powi e < B powi (ilog b q + 1)" using ib(2) assms(2) by (simp add: B_def)
  then have c: "e < ilog b q + 1"
    using B1 power_int_increasing[of "ilog b q + 1" e B] by (cases "e < ilog b q + 1") simp_all
  show ?thesis using a c by simp
qed

lemma rne_int [simp]: "rne (of_int k) = k"
  by (simp add: rne_def)

lemma rne_0 [simp]: "rne 0 = 0"
  using rne_int[of 0] by simp

lemma rne_cases: "rne x = \<lfloor>x\<rfloor> \<or> rne x = \<lfloor>x\<rfloor> + 1"
  by (simp add: rne_def Let_def)

lemma rne_mono: "x \<le> y \<Longrightarrow> rne x \<le> rne y"
proof -
  assume xy: "x \<le> y"
  then have fl: "\<lfloor>x\<rfloor> \<le> \<lfloor>y\<rfloor>" by (rule floor_mono)
  show ?thesis
  proof (cases "\<lfloor>x\<rfloor> = \<lfloor>y\<rfloor>")
    case True
    then show ?thesis using xy by (auto simp: rne_def Let_def)
  next
    case False
    then have "\<lfloor>x\<rfloor> + 1 \<le> \<lfloor>y\<rfloor>" using fl by simp
    moreover have "rne x \<le> \<lfloor>x\<rfloor> + 1" using rne_cases[of x] by auto
    moreover have "\<lfloor>y\<rfloor> \<le> rne y" using rne_cases[of y] by auto
    ultimately show ?thesis by linarith
  qed
qed

lemma rne_neg: "rne (- x) = - rne x"
proof (cases "x \<in> \<int>")
  case True
  then obtain k where "x = of_int k" by (auto elim: Ints_cases)
  then have "rne (- x) = rne (of_int (- k))" "rne x = k" by simp_all
  then show ?thesis by (simp only: rne_int)
next
  case False
  have ne: "x \<noteq> of_int \<lfloor>x\<rfloor>" using False by (metis Ints_of_int)
  then have fl: "\<lfloor>- x\<rfloor> = - \<lfloor>x\<rfloor> - 1"
    by (simp add: floor_minus ceiling_altdef)
  have fr: "x - of_int \<lfloor>x\<rfloor> \<noteq> 0" using ne by simp
  show ?thesis
    using fr by (auto simp: rne_def Let_def fl)
qed

lemma rd_exp_eq:
  assumes "2 powi e \<le> \<bar>q\<bar>" "\<bar>q\<bar> < 2 powi (e + 1)"
  shows "rd_exp q = max (e - 52) (- 1074)"
proof -
  have "ilog 2 \<bar>q\<bar> = e"
    using assms by (intro ilog_unique) simp_all
  then show ?thesis by (simp add: rd_exp_def)
qed

lemma rd_val_exact:
  assumes q: "q = of_int m * 2 powi p" and m: "\<bar>m\<bar> < 2 ^ 53" and p: "- 1074 \<le> p"
  shows "rd_val q = q"
proof (cases "q = 0")
  case True
  then show ?thesis by (simp add: rd_val_def)
next
  case False
  define e where "e = ilog 2 \<bar>q\<bar>"
  have q0: "0 < \<bar>q\<bar>" using False by simp
  have eb: "2 powi e \<le> \<bar>q\<bar>" "\<bar>q\<bar> < 2 powi (e + 1)"
    using ilog_bounds[of 2 "\<bar>q\<bar>"] q0 by (simp_all add: e_def)
  have "\<bar>q\<bar> = of_int \<bar>m\<bar> * 2 powi p" by (simp add: q abs_mult)
  also have "\<dots> < 2 ^ 53 * 2 powi p"
  proof -
    have "(of_int \<bar>m\<bar> :: rat) < of_int (2 ^ 53)" using m by (simp only: of_int_less_iff)
    then show ?thesis by (simp add: mult_strict_right_mono)
  qed
  also have "\<dots> = 2 powi (p + 53)"
    by (simp add: power_int_add)
  finally have "2 powi e < (2::rat) powi (p + 53)" using eb(1) by simp
  then have ep: "e < p + 53"
    using power_int_increasing[of "p + 53" e "2::rat"] by (cases "e < p + 53") simp_all
  define p' where "p' = rd_exp q"
  have pp: "p' \<le> p" using ep p by (simp add: p'_def rd_exp_def e_def)
  have "q / 2 powi p' = of_int m * (2 powi p / 2 powi p')" by (simp add: q)
  also have "2 powi p / 2 powi p' = (2::rat) powi (p - p')"
    by (rule power_int_diff[symmetric]) simp
  also have "\<dots> = of_int (2 ^ nat (p - p'))" using pp by (simp add: powi_nat)
  finally have "q / 2 powi p' = of_int (m * 2 ^ nat (p - p'))" by simp
  then have "rne (q / 2 powi p') = m * 2 ^ nat (p - p')" by (simp only: rne_int)
  then have "of_int (rne (q / 2 powi p')) * 2 powi p' = of_int m * ((2::rat) powi (p - p') * 2 powi p')"
    using pp by (simp add: powi_nat)
  also have "(2::rat) powi (p - p') * 2 powi p' = 2 powi p"
    by (subst power_int_add[symmetric]) simp_all
  finally show ?thesis by (simp add: q rd_val_def p'_def)
qed

lemma rd_exact:
  assumes q: "q = of_int m * 2 powi p" and m: "\<bar>m\<bar> < 2 ^ 53" and p: "- 1074 \<le> p"
    and fin: "\<bar>q\<bar> < 2 ^ 1024"
  shows "rd q = Fin q"
  using rd_val_exact[OF q m p] fin by (simp add: rd_def overflow_threshold_def)

lemma floor_rat_numeral: "\<lfloor>(numeral a :: rat) / numeral b\<rfloor> = numeral a div numeral b"
  using floor_divide_of_int_eq[of "numeral a" "numeral b", where ?'a = rat] by simp

lemma floor_rat_neg_numeral:
  "\<lfloor>- (numeral a :: rat) / numeral b\<rfloor> = - numeral a div numeral b"
  using floor_divide_of_int_eq[of "- numeral a" "numeral b", where ?'a = rat] by simp

lemma rd_100: "rd 100 = Fin 100"
  by (rule rd_exact[of _ 100 0]) simp_all

lemma rd_half: "rd (201/2) = Fin (201/2)"
  by (rule rd_exact[of _ 201 "-1"]) simp_all

lemma rd_200: "rd (1/200) = Fin (5764607523034235 / 2 ^ 60)"
proof -
  have "rd_exp (1/200) = - 60" using rd_exp_eq[of "-8" "1/200"] by simp
  then have "rd_val (1/200) = 5764607523034235 / 2 ^ 60"
    by (simp add: rd_val_def rne_def Let_def floor_rat_numeral)
  then show ?thesis by (simp add: rd_def overflow_threshold_def)
qed

lemmas parse_defs = parseFloat_def parseFloat_str_def str_decimal_def mv_def digits_val_def
  digit_val_def is_digit_def is_ws_def parse_exp_def has_signed_digits_def signed_digits_def
  zero_s_def inf_s_def Let_def

lemma pf1: "parseFloat (JStr ''100.00'') = Inr (Fin 100)"
  by (simp add: parse_defs rd_100)

lemma pf2: "parseFloat (JStr ''100.50'') = Inr (Fin (201/2))"
  by (simp add: parse_defs rd_half)

lemma rd_back: "rd (5764607523034235 / 2 ^ 60 * 100) = Fin (1/2)"
proof -
  have "rd_exp (5764607523034235 / 2 ^ 60 * 100) = - 53"
    using rd_exp_eq[of "-1" "5764607523034235 / 2 ^ 60 * 100"] by simp
  then have "rd_val (5764607523034235 / 2 ^ 60 * 100) = 1/2"
    by (simp add: rd_val_def rne_def Let_def floor_rat_numeral)
  then show ?thesis by (simp add: rd_def overflow_threshold_def)
qed

lemma ar1: "js_mul (js_div (js_sub (Fin (201/2)) (Fin 100)) (Fin 100)) (Fin 100) = Fin (1/2)"
proof -
  have a: "rd (1/2) = Fin (1/2)" by (rule rd_exact[of _ 1 "-1"]) simp_all
  have s: "js_sub (Fin (201/2)) (Fin 100) = Fin (1/2)"
    by (simp add: js_sub_def a)
  have d: "js_div (Fin (1/2)) (Fin 100) = Fin (5764607523034235 / 2 ^ 60)"
    using rd_200 by (simp add: js_div_def is_inf_def is_zero_def)
  have m: "js_mul (Fin (5764607523034235 / 2 ^ 60)) (Fin 100) = Fin (1/2)"
    using rd_back by (simp add: js_mul_def is_inf_def is_zero_def)
  show ?thesis by (simp only: s d m)
qed

subsection \<open>The two variants of the transformer\<close>

lemma top_nosave_eq: "top_nosave ts cum idx xs = top_yessave ts cum idx xs"
  by (induction xs arbitrary: cum idx) simp_all

lemma try_nosave_eq: "try_nosave sm mids now coin d = try_yessave sm mids now coin d"
  by (simp add: try_nosave_def try_yessave_def top_nosave_eq)

lemma nosave_eq:
  "processOrderbookData_nosave sm mids now coin d = processOrderbookData_yessave sm mids now coin d"
  by (simp add: processOrderbookData_nosave_def processOrderbookData_yessave_def try_nosave_eq)

text \<open>
  C9. The transformer of \<^verbatim>\<open>nosave.ts\<close> and the transformer of \<^verbatim>\<open>yessave.ts\<close> return the
  same result for every symbol mapping, mid-price cache, timestamp, coin and raw payload.
\<close>

theorem transformers_agree:
  "processOrderbookData_nosave sm mids now coin l2Data =
   processOrderbookData_yessave sm mids now coin l2Data"
  unfolding processOrderbookData_nosave_def processOrderbookData_yessave_def
  by (simp add: try_nosave_eq)

subsection \<open>The structure of a successful transformation\<close>

lemma bind_e_simps [simp]: "bind_e (Inl e) f = Inl e" "bind_e (Inr v) f = f v"
  by (simp_all add: bind_e_def)

lemma bind_e_Inr_iff: "bind_e m f = Inr r \<longleftrightarrow> (\<exists>v. m = Inr v \<and> f v = Inr r)"
  by (cases m) simp_all

lemma yessave_Some_iff:
  "processOrderbookData_yessave sm mids now coin l2 = Some r \<longleftrightarrow>
     try_yessave sm mids now coin l2 = Inr r"
  by (simp add: processOrderbookData_yessave_def split: sum.splits)

lemma try_yessave_Inr:
  assumes "try_yessave sm mids now coin l2 = Inr r"
  obtains bs as bestBid bestAsk topBids topAsks where
    "side l2 0 = Inr bs" "side l2 1 = Inr as" "best bs = Inr bestBid" "best as = Inr bestAsk"
    "top_yessave now (Fin 0) 0 (take (min 10 (length bs)) bs) = Inr topBids"
    "top_yessave now (Fin 0) 0 (take (min 10 (length as)) as) = Inr topAsks"
    "r = \<lparr>symbol = coin,
          displaySymbol = (case sm coin of None \<Rightarrow> coin | Some d \<Rightarrow> if d = [] then coin else d),
          lastUpdate = now,
          midPrice = (case mids coin of None \<Rightarrow> ''0'' | Some m \<Rightarrow> if m = [] then ''0'' else m),
          spread = toFixed 8 (js_sub bestAsk bestBid),
          spreadPercentage =
            (if js_gt bestBid (Fin 0)
             then toFixed 4 (js_mul (js_div (js_sub bestAsk bestBid) bestBid) (Fin 100))
             else ''0'') @ ''%'',
          bids = topBids, asks = topAsks\<rparr>"
  using assms unfolding try_yessave_def Let_def bind_e_Inr_iff
  by (elim exE conjE) (auto simp del: toFixed.simps)

subsection \<open>The worked example\<close>

lemma rd_nat_small: "n < 2 ^ 53 \<Longrightarrow> rd (of_nat n) = Fin (of_nat n)"
  by (rule rd_exact[of _ "int n" 0]) (simp_all add: less_le_trans[of _ "2 ^ 53"])

lemma side0: "side example_snapshot 0 =
    Inr [\<lparr>ps_price = JStr ''100.00'', ps_size = JStr ''2''\<rparr>,
         \<lparr>ps_price = JStr ''99.50'', ps_size = JStr ''3''\<rparr>]"
  by (simp add: example_snapshot_def snapshot_def level_obj_def side_def bind_e_def array_of_def
      px_sz_def)

lemma side1: "side example_snapshot (Suc 0) =
    Inr [\<lparr>ps_price = JStr ''100.50'', ps_size = JStr ''1''\<rparr>,
         \<lparr>ps_price = JStr ''101.00'', ps_size = JStr ''4''\<rparr>]"
  by (simp add: example_snapshot_def snapshot_def level_obj_def side_def bind_e_def array_of_def
      px_sz_def)

lemma rd_small: "rd 1 = Fin 1" "rd 2 = Fin 2" "rd 3 = Fin 3" "rd 4 = Fin 4" "rd 5 = Fin 5"
  using rd_nat_small[of 1] rd_nat_small[of 2] rd_nat_small[of 3] rd_nat_small[of 4]
    rd_nat_small[of 5] by simp_all

lemma sz: "parseFloat (JStr ''1'') = Inr (Fin 1)" "parseFloat (JStr ''2'') = Inr (Fin 2)"
  "parseFloat (JStr ''3'') = Inr (Fin 3)" "parseFloat (JStr ''4'') = Inr (Fin 4)"
  by (simp_all add: parse_defs rd_small)

lemma digits_numeral:
  "digits (numeral k) =
     (if numeral k < (10::nat) then [digit_char (numeral k)]
      else digits (numeral k div 10) @ [digit_char (numeral k)])"
  by (rule digits.simps)

lemma digits_0: "digits 0 = ''0''" and digits_1: "digits (Suc 0) = ''1''"
  by (simp_all add: digits.simps[of 0] digits.simps[of "Suc 0"] digit_char_def)

lemmas fixed_eval = fixed_def Let_def floor_rat_numeral digits_numeral digits_0 digits_1
  digit_char_def

lemma fixed4: "toFixed 4 (Fin 1) = ''1.0000''" "toFixed 4 (Fin 2) = ''2.0000''"
  "toFixed 4 (Fin 5) = ''5.0000''" "toFixed 4 (Fin (1/2)) = ''0.5000''"
  "toFixed 8 (Fin (1/2)) = ''0.50000000''"
  by (simp_all add: fixed_eval)

lemma bests: "best [\<lparr>ps_price = JStr ''100.00'', ps_size = JStr ''2''\<rparr>,
         \<lparr>ps_price = JStr ''99.50'', ps_size = JStr ''3''\<rparr>] = Inr (Fin 100)"
  "best [\<lparr>ps_price = JStr ''100.50'', ps_size = JStr ''1''\<rparr>,
         \<lparr>ps_price = JStr ''101.00'', ps_size = JStr ''4''\<rparr>] = Inr (Fin (201/2))"
  by (simp_all add: best_def pf1 pf2)

lemma sub1: "js_sub (Fin (201/2)) (Fin 100) = Fin (1/2)"
  using rd_exact[of "1/2" 1 "-1"] by (simp add: js_sub_def)

lemma example_eval:
  "processOrderbookData_yessave sm mids now coin example_snapshot =
     Some \<lparr>symbol = coin,
           displaySymbol = (case sm coin of None \<Rightarrow> coin | Some d \<Rightarrow> if d = [] then coin else d),
           lastUpdate = now,
           midPrice = (case mids coin of None \<Rightarrow> ''0'' | Some m \<Rightarrow> if m = [] then ''0'' else m),
           spread = ''0.50000000'',
           spreadPercentage = ''0.5000%'',
           bids = [\<lparr>level = 1, price = JStr ''100.00'', size_f = JStr ''2'',
                    cumulative = ''2.0000'', timestamp = now\<rparr>,
                   \<lparr>level = 2, price = JStr ''99.50'', size_f = JStr ''3'',
                    cumulative = ''5.0000'', timestamp = now\<rparr>],
           asks = [\<lparr>level = 1, price = JStr ''100.50'', size_f = JStr ''1'',
                    cumulative = ''1.0000'', timestamp = now\<rparr>,
                   \<lparr>level = 2, price = JStr ''101.00'', size_f = JStr ''4'',
                    cumulative = ''5.0000'', timestamp = now\<rparr>]\<rparr>"
  by (simp add: processOrderbookData_yessave_def try_yessave_def side0 side1 bests
      js_gt_def sub1 ar1[unfolded sub1] fixed4 sz rd_small Let_def
      del: toFixed.simps)

text \<open>
  C5. On the snapshot with bids ("100.00","2"), ("99.50","3") and asks ("100.50","1"),
  ("101.00","4") the best bid is 100, the best ask is 100.5, and both variants return the
  record with spread "0.50000000", spreadPercentage "0.5000%", bid cumulative sizes
  "2.0000", "5.0000" and ask cumulative sizes "1.0000", "5.0000".
\<close>

theorem example_snapshot_result:
  "bind_e (side example_snapshot 0) best = Inr (Fin 100) \<and>
   bind_e (side example_snapshot 1) best = Inr (Fin (201 / 2)) \<and>
   processOrderbookData_yessave sm mids now coin example_snapshot =
     Some \<lparr>symbol = coin,
           displaySymbol = (case sm coin of None \<Rightarrow> coin | Some d \<Rightarrow> if d = [] then coin else d),
           lastUpdate = now,
           midPrice = (case mids coin of None \<Rightarrow> ''0'' | Some m \<Rightarrow> if m = [] then ''0'' else m),
           spread = ''0.50000000'',
           spreadPercentage = ''0.5000%'',
           bids = [\<lparr>level = 1, price = JStr ''100.00'', size_f = JStr ''2'',
                    cumulative = ''2.0000'', timestamp = now\<rparr>,
                   \<lparr>level = 2, price = JStr ''99.50'', size_f = JStr ''3'',
                    cumulative = ''5.0000'', timestamp = now\<rparr>],
           asks = [\<lparr>level = 1, price = JStr ''100.50'', size_f = JStr ''1'',
                    cumulative = ''1.0000'', timestamp = now\<rparr>,
                   \<lparr>level = 2, price = JStr ''101.00'', size_f = JStr ''4'',
                    cumulative = ''5.0000'', timestamp = now\<rparr>]\<rparr> \<and>
   processOrderbookData_nosave sm mids now coin example_snapshot =
   processOrderbookData_yessave sm mids now coin example_snapshot"
  using example_eval[of sm mids now coin] by (simp add: side0 side1 bests nosave_eq bind_e_def)

subsection \<open>Rounding: idempotence, symmetry, monotonicity\<close>

lemma rne_abs: "\<bar>rne x\<bar> = rne \<bar>x\<bar>"
proof (cases "0 \<le> x")
  case True
  then have "rne 0 \<le> rne x" by (intro rne_mono)
  then show ?thesis using True by simp
next
  case False
  then have "rne x \<le> rne 0" by (intro rne_mono) simp
  then show ?thesis using False by (simp add: rne_neg)
qed

lemma rd_exp_bounds:
  assumes "q \<noteq> 0"
  shows "\<bar>q\<bar> < 2 powi (rd_exp q + 53)" and "- 1074 \<le> rd_exp q"
proof -
  have "\<bar>q\<bar> < 2 powi (ilog 2 \<bar>q\<bar> + 1)"
    using ilog_bounds[of 2 "\<bar>q\<bar>"] assms by simp
  also have "\<dots> \<le> 2 powi (rd_exp q + 53)"
    by (rule powi_mono) (simp add: rd_exp_def)
  finally show "\<bar>q\<bar> < 2 powi (rd_exp q + 53)" .
  show "- 1074 \<le> rd_exp q" by (simp add: rd_exp_def)
qed

lemma rd_val_mantissa:
  "\<bar>rne (q / 2 powi rd_exp q)\<bar> \<le> 2 ^ 53"
proof (cases "q = 0")
  case True
  then show ?thesis by simp
next
  case False
  have "\<bar>q / 2 powi rd_exp q\<bar> = \<bar>q\<bar> / 2 powi rd_exp q" by simp
  also have "\<dots> \<le> 2 powi (rd_exp q + 53) / 2 powi rd_exp q"
    using rd_exp_bounds(1)[OF False] by (simp add: divide_right_mono)
  also have "\<dots> = 2 powi (rd_exp q + 53 - rd_exp q)"
    by (rule power_int_diff[symmetric]) simp
  finally have "\<bar>q / 2 powi rd_exp q\<bar> \<le> of_int (2 ^ 53)" by simp
  then have "rne \<bar>q / 2 powi rd_exp q\<bar> \<le> rne (of_int (2 ^ 53))" by (rule rne_mono)
  then show ?thesis by (simp only: rne_int rne_abs)
qed

lemma rd_val_idem: "rd_val (rd_val x) = rd_val x"
proof -
  define p where "p = rd_exp x"
  define m where "m = rne (x / 2 powi p)"
  have q: "rd_val x = of_int m * 2 powi p" by (simp add: rd_val_def m_def p_def)
  have p: "- 1074 \<le> p" by (simp add: p_def rd_exp_def)
  have mb: "\<bar>m\<bar> \<le> 2 ^ 53" using rd_val_mantissa[of x] by (simp add: m_def p_def)
  show ?thesis
  proof (cases "\<bar>m\<bar> < 2 ^ 53")
    case True
    then show ?thesis using q p by (intro rd_val_exact[of _ m p]) simp_all
  next
    case False
    then have me: "m = 2 ^ 53 \<or> m = - (2 ^ 53)" using mb by linarith
    define m' where "m' = (if 0 < m then 2 ^ 52 else - (2 ^ 52) :: int)"
    have "(2::rat) powi (p + 1) = 2 powi p * 2"
      by (subst power_int_add) simp_all
    then have "rd_val x = of_int m' * 2 powi (p + 1)"
      using me by (auto simp: q m'_def)
    moreover have "\<bar>m'\<bar> < 2 ^ 53" by (simp add: m'_def)
    ultimately show ?thesis using p by (intro rd_val_exact[of _ m' "p + 1"]) simp_all
  qed
qed

lemma rd_idem:
  assumes "rd x = Fin q"
  shows "rd q = Fin q"
proof (cases "x = 0")
  case True
  then show ?thesis using assms by (simp add: rd_def)
next
  case False
  show ?thesis
  proof (cases "q = 0")
    case True
    then show ?thesis by (simp add: rd_def)
  next
    case q0: False
    have q: "q = rd_val x" and fin: "\<not> overflow_threshold \<le> \<bar>rd_val x\<bar>"
      using assms False q0 by (auto simp: rd_def split: if_splits)
    have "rd_val q = q" using rd_val_idem[of x] by (simp add: q)
    then show ?thesis using fin q0 by (simp add: rd_def q)
  qed
qed

lemma rd_exp_minus [simp]: "rd_exp (- q) = rd_exp q"
  by (simp add: rd_exp_def)

lemma rd_val_minus: "rd_val (- q) = - rd_val q"
  by (simp add: rd_val_def rne_neg)

lemma rd_minus:
  assumes "rd q = Fin v" "v \<noteq> 0"
  shows "rd (- q) = Fin (- v)"
proof -
  have q0: "q \<noteq> 0" using assms by (auto simp: rd_def)
  have "v = rd_val q" "\<not> overflow_threshold \<le> \<bar>rd_val q\<bar>"
    using assms q0 by (auto simp: rd_def split: if_splits)
  then show ?thesis using q0 assms(2) by (simp add: rd_def rd_val_minus)
qed

lemma rd_one: "rd 1 = Fin 1" and rd_m1: "rd (- 1) = Fin (- 1)"
  and rd_m100: "rd (- 100) = Fin (- 100)"
  using rd_exact[of 1 1 0] rd_exact[of "- 1" "- 1" 0] rd_exact[of "- 100" "- 100" 0]
  by simp_all

lemma ilog_mono:
  assumes "0 < q" "q \<le> r"
  shows "ilog 2 q \<le> ilog 2 r"
proof -
  have "2 powi ilog 2 q \<le> q" using ilog_bounds[of 2 q] assms by simp
  also have "q \<le> r" by fact
  also have "r < 2 powi (ilog 2 r + 1)" using ilog_bounds[of 2 r] assms by simp
  finally have "(2::rat) powi ilog 2 q < 2 powi (ilog 2 r + 1)" .
  then have "ilog 2 q < ilog 2 r + 1"
    using power_int_increasing[of "ilog 2 r + 1" "ilog 2 q" "2::rat"]
    by (cases "ilog 2 q < ilog 2 r + 1") simp_all
  then show ?thesis by simp
qed

lemma rd_val_nonneg: "0 \<le> q \<Longrightarrow> 0 \<le> rd_val q"
proof -
  assume "0 \<le> q"
  then have "0 \<le> q / 2 powi rd_exp q" by simp
  then have "rne 0 \<le> rne (q / 2 powi rd_exp q)" by (rule rne_mono)
  then show ?thesis by (simp add: rd_val_def)
qed

lemma rd_val_mono:
  assumes q: "0 < q" and qr: "q \<le> r"
  shows "rd_val q \<le> rd_val r"
proof -
  have r: "0 < r" using q qr by simp
  have pq: "rd_exp q \<le> rd_exp r"
    using ilog_mono[OF q qr] q r by (simp add: rd_exp_def)
  show ?thesis
  proof (cases "rd_exp q = rd_exp r")
    case True
    have "q / 2 powi rd_exp r \<le> r / 2 powi rd_exp r"
      using qr by (simp add: divide_right_mono)
    then have "rne (q / 2 powi rd_exp r) \<le> rne (r / 2 powi rd_exp r)" by (rule rne_mono)
    then have "(of_int (rne (q / 2 powi rd_exp r)) :: rat) \<le> of_int (rne (r / 2 powi rd_exp r))"
      by (simp only: of_int_le_iff)
    then show ?thesis
      by (simp add: rd_val_def True mult_right_mono)
  next
    case False
    then have lt: "rd_exp q < rd_exp r" using pq by simp
    define B :: rat where "B = 2 powi (rd_exp r + 52)"
    have er: "rd_exp r = ilog 2 r - 52"
      using lt r by (simp add: rd_exp_def max_def split: if_splits)
    have Br: "B \<le> r" using ilog_bounds[of 2 r] r by (simp add: B_def er)
    have "q < 2 powi (rd_exp q + 53)" using rd_exp_bounds(1)[of q] q by simp
    also have "\<dots> \<le> B" unfolding B_def by (rule powi_mono) (use lt in simp)
    finally have qB: "q \<le> B" by simp
    have lo: "rd_val q \<le> B"
    proof -
      have "B / 2 powi rd_exp q = 2 powi (rd_exp r + 52 - rd_exp q)"
        unfolding B_def by (rule power_int_diff[symmetric]) simp
      also have "\<dots> = of_int (2 ^ nat (rd_exp r + 52 - rd_exp q))"
        using lt by (simp add: powi_nat)
      finally have Bi: "B / 2 powi rd_exp q = of_int (2 ^ nat (rd_exp r + 52 - rd_exp q))" .
      have "q / 2 powi rd_exp q \<le> B / 2 powi rd_exp q"
        using qB by (simp add: divide_right_mono)
      then have "rne (q / 2 powi rd_exp q) \<le> rne (B / 2 powi rd_exp q)" by (rule rne_mono)
      then have "(of_int (rne (q / 2 powi rd_exp q)) :: rat) \<le> B / 2 powi rd_exp q"
        unfolding Bi rne_int by (simp only: of_int_le_iff)
      then have "rd_val q \<le> B / 2 powi rd_exp q * 2 powi rd_exp q"
        unfolding rd_val_def by (rule mult_right_mono) simp
      then show ?thesis by simp
    qed
    have hi: "B \<le> rd_val r"
    proof -
      have "B / 2 powi rd_exp r = 2 powi (rd_exp r + 52 - rd_exp r)"
        unfolding B_def by (rule power_int_diff[symmetric]) simp
      then have Bi: "B / 2 powi rd_exp r = of_int (2 ^ 52)" by simp
      have "B / 2 powi rd_exp r \<le> r / 2 powi rd_exp r"
        using Br by (simp add: divide_right_mono)
      then have "rne (B / 2 powi rd_exp r) \<le> rne (r / 2 powi rd_exp r)" by (rule rne_mono)
      then have "B / 2 powi rd_exp r \<le> (of_int (rne (r / 2 powi rd_exp r)) :: rat)"
        unfolding Bi rne_int by (simp only: of_int_le_iff)
      then have "B / 2 powi rd_exp r * 2 powi rd_exp r \<le> rd_val r"
        unfolding rd_val_def by (rule mult_right_mono) simp
      then show ?thesis by simp
    qed
    show ?thesis using lo hi by simp
  qed
qed

lemma rd_mono_nonneg:
  assumes "0 \<le> q" "q \<le> r"
  shows "js_le (rd q) (rd r)"
proof -
  have r0: "0 \<le> r" using assms by simp
  have vr: "0 \<le> rd_val r" using r0 by (rule rd_val_nonneg)
  show ?thesis
  proof (cases "q = 0")
    case True
    then show ?thesis using vr r0 by (simp add: rd_def js_le_def)
  next
    case False
    then have q: "0 < q" using assms by simp
    then have r: "0 < r" using assms by simp
    have m: "rd_val q \<le> rd_val r" using q assms(2) by (rule rd_val_mono)
    have vq: "0 \<le> rd_val q" using assms(1) by (rule rd_val_nonneg)
    show ?thesis using m vq vr q r by (auto simp: rd_def js_le_def)
  qed
qed

subsection \<open>The spread percentage\<close>

lemma transformer_eq:
  "transformer f \<Longrightarrow> f sm mids now coin l2 = processOrderbookData_yessave sm mids now coin l2"
  unfolding transformer_def by (auto simp: nosave_eq)

lemma transformer_Some:
  assumes "transformer f" "f sm mids now coin l2 = Some r"
  obtains bs as bestBid bestAsk topBids topAsks where
    "side l2 0 = Inr bs" "side l2 1 = Inr as" "best bs = Inr bestBid" "best as = Inr bestAsk"
    "top_yessave now (Fin 0) 0 (take (min 10 (length bs)) bs) = Inr topBids"
    "top_yessave now (Fin 0) 0 (take (min 10 (length as)) as) = Inr topAsks"
    "r = \<lparr>symbol = coin,
          displaySymbol = (case sm coin of None \<Rightarrow> coin | Some d \<Rightarrow> if d = [] then coin else d),
          lastUpdate = now,
          midPrice = (case mids coin of None \<Rightarrow> ''0'' | Some m \<Rightarrow> if m = [] then ''0'' else m),
          spread = toFixed 8 (js_sub bestAsk bestBid),
          spreadPercentage =
            (if js_gt bestBid (Fin 0)
             then toFixed 4 (js_mul (js_div (js_sub bestAsk bestBid) bestBid) (Fin 100))
             else ''0'') @ ''%'',
          bids = topBids, asks = topAsks\<rparr>"
proof -
  have "try_yessave sm mids now coin l2 = Inr r"
    using assms transformer_eq[OF assms(1)] by (simp add: yessave_Some_iff)
  then show ?thesis by (rule try_yessave_Inr) (rule that)
qed

text \<open>
  C4, amended. Whenever either variant returns a record, its spreadPercentage field is the
  text of \<open>(bestAsk - bestBid) / bestBid * 100\<close>, computed in double precision and printed
  with 4 fraction digits, followed by the percent sign when the best bid is greater than
  zero, and it is \<open>''0%''\<close> otherwise (a best bid that is zero, negative or not a number).
\<close>

theorem spread_percentage_field:
  assumes "transformer f"
    and "f sm mids now coin l2 = Some r"
    and "side l2 0 = Inr bs" and "side l2 1 = Inr as"
    and "best bs = Inr bestBid" and "best as = Inr bestAsk"
  shows "spreadPercentage r =
     (if js_gt bestBid (Fin 0)
      then toFixed 4 (js_mul (js_div (js_sub bestAsk bestBid) bestBid) (Fin 100)) @ ''%''
      else ''0%'')"
proof -
  from assms(1,2) obtain bs' as' bb ba tb ta where
    "side l2 0 = Inr bs'" "side l2 1 = Inr as'" "best bs' = Inr bb" "best as' = Inr ba"
    "r = \<lparr>symbol = coin,
          displaySymbol = (case sm coin of None \<Rightarrow> coin | Some d \<Rightarrow> if d = [] then coin else d),
          lastUpdate = now,
          midPrice = (case mids coin of None \<Rightarrow> ''0'' | Some m \<Rightarrow> if m = [] then ''0'' else m),
          spread = toFixed 8 (js_sub ba bb),
          spreadPercentage =
            (if js_gt bb (Fin 0)
             then toFixed 4 (js_mul (js_div (js_sub ba bb) bb) (Fin 100))
             else ''0'') @ ''%'',
          bids = tb, asks = ta\<rparr>"
    by (rule transformer_Some)
  with assms(3-6) show ?thesis by (simp del: toFixed.simps)
qed

lemma replicate_numeral: "replicate (numeral k) x = x # replicate (pred_numeral k) x"
  by (simp add: numeral_eq_Suc)

lemma side1_one: "side example_snapshot 1 =
    Inr [\<lparr>ps_price = JStr ''100.50'', ps_size = JStr ''1''\<rparr>,
         \<lparr>ps_price = JStr ''101.00'', ps_size = JStr ''4''\<rparr>]"
  using side1 by simp

lemma transformer_yessave: "transformer processOrderbookData_yessave"
  by (simp add: transformer_def)

text \<open>The hypotheses of C4 hold on the example snapshot, where the field is \<open>''0.5000%''\<close>.\<close>

theorem spread_percentage_field_witness:
  "transformer processOrderbookData_yessave \<and>
   side example_snapshot 0 =
     Inr [\<lparr>ps_price = JStr ''100.00'', ps_size = JStr ''2''\<rparr>,
          \<lparr>ps_price = JStr ''99.50'', ps_size = JStr ''3''\<rparr>] \<and>
   js_gt (Fin 100) (Fin 0) \<and>
   toFixed 4 (js_mul (js_div (js_sub (Fin (201 / 2)) (Fin 100)) (Fin 100)) (Fin 100)) @ ''%''
     = ''0.5000%''"
  using spread_percentage_field[OF transformer_yessave
      example_eval[of Map.empty Map.empty "''t''" "''@1''"] side0 side1_one bests]
  by (simp add: side0 transformer_yessave js_gt_def del: toFixed.simps)

lemma side_empty: "side empty_snapshot 0 = Inr []" "side empty_snapshot (Suc 0) = Inr []"
  by (simp_all add: empty_snapshot_def snapshot_def side_def array_of_def)

lemma fixed8_0: "toFixed 8 (Fin 0) = ''0.00000000''"
  by (simp add: fixed_eval replicate_numeral)

lemma rd_0: "rd 0 = Fin 0"
  by (simp add: rd_def)

text \<open>
  C4 as stated fails: with no bid the best bid is 0, and the field is \<open>''0%''\<close>, not
  \<open>''0''\<close>.
\<close>

theorem spread_percentage_zero_counterexample:
  "bind_e (side empty_snapshot 0) best = Inr (Fin 0) \<and>
   processOrderbookData_yessave Map.empty Map.empty ''t'' ''@1'' empty_snapshot =
     Some \<lparr>symbol = ''@1'', displaySymbol = ''@1'', lastUpdate = ''t'', midPrice = ''0'',
           spread = ''0.00000000'', spreadPercentage = ''0%'', bids = [], asks = []\<rparr> \<and>
   processOrderbookData_nosave Map.empty Map.empty ''t'' ''@1'' empty_snapshot =
     Some \<lparr>symbol = ''@1'', displaySymbol = ''@1'', lastUpdate = ''t'', midPrice = ''0'',
           spread = ''0.00000000'', spreadPercentage = ''0%'', bids = [], asks = []\<rparr> \<and>
   ''0%'' \<noteq> ''0''"
  by (simp add: nosave_eq processOrderbookData_yessave_def try_yessave_def side_empty best_def
      js_gt_def js_sub_def rd_0 fixed8_0 Let_def del: toFixed.simps)

subsection \<open>Malformed snapshots\<close>

lemma side_Inl_entries: "side_entries l2 i = None \<Longrightarrow> \<exists>e. side l2 i = Inl e"
  by (auto simp: side_entries_def side_def array_of_def bind_e_def
      split: sum.splits jsval.splits)

lemma map_e_nullish: "list_ex nullish xs \<Longrightarrow> \<exists>e. map_e px_sz xs = Inl e"
proof (induction xs)
  case Nil
  then show ?case by simp
next
  case (Cons x xs)
  show ?case
  proof (cases "nullish x")
    case True
    then show ?thesis by (auto simp: nullish_def px_sz_def)
  next
    case False
    then obtain e where "map_e px_sz xs = Inl e" using Cons by auto
    then show ?thesis by (cases "px_sz x") simp_all
  qed
qed

lemma side_Inl_nullish:
  "side_entries l2 i = Some xs \<Longrightarrow> list_ex nullish xs \<Longrightarrow> \<exists>e. side l2 i = Inl e"
  using map_e_nullish[of xs]
  by (auto simp: side_entries_def side_def array_of_def bind_e_def
      split: sum.splits jsval.splits)

lemma malformed_try:
  assumes "structurally_malformed l2"
  shows "\<exists>e. try_yessave sm mids now coin l2 = Inl e"
proof -
  have "(\<exists>e. side l2 0 = Inl e) \<or> (\<exists>e. side l2 1 = Inl e)"
    using assms side_Inl_entries[of l2 0] side_Inl_entries[of l2 1]
      side_Inl_nullish[of l2 0] side_Inl_nullish[of l2 1]
    by (auto simp: structurally_malformed_def split: option.splits)
  then show ?thesis
    by (cases "side l2 0") (auto simp: try_yessave_def)
qed

lemma malformed_None:
  "transformer f \<Longrightarrow> structurally_malformed l2 \<Longrightarrow> f sm mids now coin l2 = None"
  using malformed_try[of l2 sm mids now coin]
  by (auto simp: transformer_eq processOrderbookData_yessave_def)

lemma run_Cons: "run st (ev # evs) = run (step st ev) evs"
  by (simp add: run_def)

text \<open>
  C3, amended. For every raw snapshot that is structurally malformed (no \<^verbatim>\<open>levels\<close>, a
  side that is missing or not an array, a \<^verbatim>\<open>null\<close> level) either variant returns
  \<^verbatim>\<open>null\<close>; the handler of either mode then only counts the message and logs the
  failure, and the run goes on with the next event.
\<close>

theorem malformed_structure_is_skipped:
  assumes "transformer f" and "structurally_malformed l2"
    and "get_prop m ''channel'' = Inr (JStr ''l2Book'')"
    and "get_prop m ''data'' = Inr l2"
    and "get_prop l2 ''coin'' = Inr (JStr c)" and "startsWith_at c"
    and "\<not> exited st"
  shows "f sm mids now c l2 = None \<and>
    onMessage_yessave now (Some m) st =
      st\<lparr>processCount := processCount st + 1, console := console st @ [ErrorLine c]\<rparr> \<and>
    onMessage_nosave now (Some m) stA =
      stA\<lparr>processCountA := processCountA stA + 1, consoleA := consoleA stA @ [ErrorLine c]\<rparr> \<and>
    run st (Message now (Some m) # evs) =
      run (st\<lparr>processCount := processCount st + 1, console := console st @ [ErrorLine c]\<rparr>) evs"
proof -
  have t: "truthy l2" using assms(5) by (cases l2) (simp_all add: truthy_def)
  have n: "processOrderbookData_yessave sm' mids' now c l2 = None"
      "processOrderbookData_nosave sm' mids' now c l2 = None" for sm' mids'
    using malformed_None[OF _ assms(2)] by (simp_all add: transformer_def)
  have B: "onMessage_yessave now (Some m) st =
      st\<lparr>processCount := processCount st + 1, console := console st @ [ErrorLine c]\<rparr>"
    using assms(3-6) t by (simp add: onMessage_yessave_def n Let_def)
  have A: "onMessage_nosave now (Some m) stA =
      stA\<lparr>processCountA := processCountA stA + 1, consoleA := consoleA stA @ [ErrorLine c]\<rparr>"
    using assms(3-6) t by (simp add: onMessage_nosave_def n Let_def)
  show ?thesis
    using malformed_None[OF assms(1,2)] A B assms(7) by (simp add: run_Cons step_def)
qed

lemma no_levels_malformed: "structurally_malformed no_levels_payload"
  by (simp add: structurally_malformed_def side_entries_def no_levels_payload_def)

text \<open>The hypotheses of C3 hold for a payload without \<^verbatim>\<open>levels\<close>, followed by a valid message.\<close>

theorem malformed_structure_is_skipped_witness:
  "transformer processOrderbookData_yessave \<and> structurally_malformed no_levels_payload \<and>
   startsWith_at ''@1'' \<and> \<not> exited (initB Map.empty Map.empty) \<and>
   processOrderbookData_yessave Map.empty Map.empty ''t'' ''@1'' no_levels_payload = None \<and>
   run (initB Map.empty Map.empty)
     [Message ''t'' (Some (l2Book_message no_levels_payload)),
      Message ''u'' (Some (l2Book_message example_snapshot))] =
   run ((initB Map.empty Map.empty)\<lparr>processCount := 1, console := [ErrorLine ''@1'']\<rparr>)
     [Message ''u'' (Some (l2Book_message example_snapshot))]"
proof -
  have c: "get_prop (l2Book_message no_levels_payload) ''channel'' = Inr (JStr ''l2Book'')"
    by (simp add: l2Book_message_def)
  have d: "get_prop (l2Book_message no_levels_payload) ''data'' = Inr no_levels_payload"
    by (simp add: l2Book_message_def)
  have k: "get_prop no_levels_payload ''coin'' = Inr (JStr ''@1'')"
    by (simp add: no_levels_payload_def)
  have s: "startsWith_at ''@1''" by (simp add: startsWith_at_def)
  have e: "\<not> exited (initB Map.empty Map.empty)" by (simp add: initB_def)
  note th = malformed_structure_is_skipped[OF transformer_yessave no_levels_malformed c d k s e,
      where sm = Map.empty and mids = Map.empty and now = "''t''"
        and evs = "[Message ''u'' (Some (l2Book_message example_snapshot))]"]
  show ?thesis
    using th transformer_yessave no_levels_malformed s e by (simp add: initB_def)
qed

lemma snapshot_sides:
  "side (snapshot [level_obj p s] []) 0 = Inr [\<lparr>ps_price = JStr p, ps_size = JStr s\<rparr>]"
  "side (snapshot [level_obj p s] []) (Suc 0) = Inr []"
  "side (snapshot [JObj []] []) 0 = Inr [\<lparr>ps_price = JUndefined, ps_size = JUndefined\<rparr>]"
  "side (snapshot [JObj []] []) (Suc 0) = Inr []"
  by (simp_all add: snapshot_def level_obj_def side_def array_of_def px_sz_def)

lemma pf_abc: "parseFloat (JStr ''abc'') = Inr NaN"
  by (simp add: parse_defs)

lemma pf_undef: "parseFloat JUndefined = Inr NaN"
  by (simp add: parse_defs)

lemma pf_inf: "parseFloat (JStr ''Infinity'') = Inr PInf"
  by (simp add: parse_defs)

lemma pf_100: "parseFloat (JStr ''100'') = Inr (Fin 100)"
  by (simp add: parse_defs rd_100)

text \<open>
  C3 as stated fails: a level with a non-numeric price, and a level with no field at all,
  both give a record (with \<open>NaN\<close> texts), not \<^verbatim>\<open>null\<close>.
\<close>

theorem malformed_levels_counterexample:
  "processOrderbookData_yessave Map.empty Map.empty ''t'' ''@1'' non_numeric_snapshot =
     Some \<lparr>symbol = ''@1'', displaySymbol = ''@1'', lastUpdate = ''t'', midPrice = ''0'',
           spread = ''NaN'', spreadPercentage = ''0%'',
           bids = [\<lparr>level = 1, price = JStr ''abc'', size_f = JStr ''2'',
                    cumulative = ''2.0000'', timestamp = ''t''\<rparr>],
           asks = []\<rparr> \<and>
   processOrderbookData_yessave Map.empty Map.empty ''t'' ''@1'' missing_fields_snapshot =
     Some \<lparr>symbol = ''@1'', displaySymbol = ''@1'', lastUpdate = ''t'', midPrice = ''0'',
           spread = ''NaN'', spreadPercentage = ''0%'',
           bids = [\<lparr>level = 1, price = JUndefined, size_f = JUndefined,
                    cumulative = ''NaN'', timestamp = ''t''\<rparr>],
           asks = []\<rparr> \<and>
   processOrderbookData_nosave Map.empty Map.empty ''t'' ''@1'' non_numeric_snapshot =
   processOrderbookData_yessave Map.empty Map.empty ''t'' ''@1'' non_numeric_snapshot \<and>
   processOrderbookData_nosave Map.empty Map.empty ''t'' ''@1'' missing_fields_snapshot =
   processOrderbookData_yessave Map.empty Map.empty ''t'' ''@1'' missing_fields_snapshot"
  by (simp add: nosave_eq processOrderbookData_yessave_def try_yessave_def
      non_numeric_snapshot_def missing_fields_snapshot_def snapshot_sides best_def
      pf_abc pf_undef sz rd_small fixed4 js_gt_def js_sub_def Let_def del: toFixed.simps(5))

subsection \<open>An empty ask side\<close>

lemma top_yessave_strings:
  "string_sizes xs \<Longrightarrow> \<exists>ls. top_yessave ts cum idx xs = Inr ls \<and> length ls = length xs"
proof (induction xs arbitrary: cum idx)
  case Nil
  then show ?case by simp
next
  case (Cons x xs)
  then obtain s where s: "ps_size x = JStr s"
    by (auto simp: string_sizes_def split: jsval.splits)
  have "string_sizes xs" using Cons.prems by (simp add: string_sizes_def)
  from Cons.IH[OF this, of "js_add cum (parseFloat_str s)" "idx + 1"]
  show ?case by (auto simp: s parseFloat_def Let_def simp del: toFixed.simps)
qed

lemma string_sizes_take: "string_sizes xs \<Longrightarrow> string_sizes (take n xs)"
  unfolding string_sizes_def list_all_iff by (auto dest: in_set_takeD)

lemma parseFloat_str_repr: "parseFloat_str s = Fin q \<Longrightarrow> rd q = Fin q"
  by (auto simp: parseFloat_str_def str_decimal_def mv_def Let_def inf_s_def zero_s_def rd_0
      split: list.splits if_splits intro: rd_idem)

lemma parseFloat_repr: "parseFloat v = Inr (Fin q) \<Longrightarrow> rd q = Fin q"
  by (auto simp: parseFloat_def split: sum.splits dest: parseFloat_str_repr)

lemma toFixed_neg: "q < 0 \<Longrightarrow> take 1 (toFixed f (Fin q)) = ''-''"
  by (simp add: Let_def)

lemma fixed_m100: "toFixed 4 (Fin (- 100)) = ''-100.0000''"
  by (simp add: fixed_eval)

lemma pct_empty_asks:
  assumes "rd q = Fin q" "0 < q"
  shows "js_sub (Fin 0) (Fin q) = Fin (- q)"
    and "js_mul (js_div (Fin (- q)) (Fin q)) (Fin 100) = Fin (- 100)"
proof -
  have m: "rd (- q) = Fin (- q)" using rd_minus[OF assms(1)] assms(2) by simp
  show "js_sub (Fin 0) (Fin q) = Fin (- q)" using assms(2) m by (simp add: js_sub_def)
  have "js_div (Fin (- q)) (Fin q) = Fin (- 1)"
    using assms(2) rd_m1 by (simp add: js_div_def is_inf_def is_zero_def)
  then show "js_mul (js_div (Fin (- q)) (Fin q)) (Fin 100) = Fin (- 100)"
    using rd_m100 by (simp add: js_mul_def is_inf_def is_zero_def)
qed

text \<open>
  C10, amended. For every raw snapshot whose ask side is empty and whose bid side is
  non-empty with string sizes and a finite best bid greater than zero, either variant
  returns a record: the best ask is taken as 0, the spread field is the text of
  \<open>0 - bestBid\<close> printed by \<^verbatim>\<open>toFixed(8)\<close> and starts with a minus sign, and the
  spreadPercentage field is \<open>''-100.0000%''\<close>.
\<close>

theorem empty_ask_side:
  assumes "transformer f"
    and "side l2 0 = Inr (b # bs)" and "side l2 1 = Inr []"
    and "string_sizes (b # bs)"
    and "parseFloat (ps_price b) = Inr (Fin q)" and "0 < q"
  shows "best [] = Inr (Fin 0) \<and>
    (\<exists>r. f sm mids now coin l2 = Some r \<and> asks r = [] \<and>
         spread r = toFixed 8 (js_sub (Fin 0) (Fin q)) \<and>
         js_sub (Fin 0) (Fin q) = Fin (- q) \<and> take 1 (spread r) = ''-'' \<and>
         spreadPercentage r = ''-100.0000%'')"
proof -
  have r: "rd q = Fin q" using assms(5) by (rule parseFloat_repr)
  obtain tb where tb:
    "top_yessave now (Fin 0) 0 (take (min 10 (length (b # bs))) (b # bs)) = Inr tb"
    using top_yessave_strings[OF string_sizes_take[OF assms(4)]] by blast
  have g: "js_gt (Fin q) (Fin 0)" using assms(6) by (simp add: js_gt_def)
  note p = pct_empty_asks[OF r assms(6)]
  have "processOrderbookData_yessave sm mids now coin l2 =
    Some \<lparr>symbol = coin,
          displaySymbol = (case sm coin of None \<Rightarrow> coin | Some d \<Rightarrow> if d = [] then coin else d),
          lastUpdate = now,
          midPrice = (case mids coin of None \<Rightarrow> ''0'' | Some m \<Rightarrow> if m = [] then ''0'' else m),
          spread = toFixed 8 (Fin (- q)), spreadPercentage = ''-100.0000%'',
          bids = tb, asks = []\<rparr>"
    using assms(2,3,5) tb g p
    by (simp add: processOrderbookData_yessave_def try_yessave_def best_def Let_def fixed_m100
        del: toFixed.simps)
  then show ?thesis
    using transformer_eq[OF assms(1), of sm mids now coin l2] p(1) assms(6) toFixed_neg[of "- q" 8]
    by (simp add: best_def del: toFixed.simps)
qed

lemma bid_only_sides:
  "side bid_only_snapshot 0 = Inr [\<lparr>ps_price = JStr ''100'', ps_size = JStr ''2''\<rparr>]"
  "side bid_only_snapshot 1 = Inr []"
  using snapshot_sides(1,2)[of "''100''" "''2''"] by (simp_all add: bid_only_snapshot_def)

text \<open>The hypotheses of C10 hold for one bid at price 100 and no ask.\<close>

theorem empty_ask_side_witness:
  "transformer processOrderbookData_yessave \<and>
   side bid_only_snapshot 0 = Inr [\<lparr>ps_price = JStr ''100'', ps_size = JStr ''2''\<rparr>] \<and>
   side bid_only_snapshot 1 = Inr [] \<and>
   string_sizes [\<lparr>ps_price = JStr ''100'', ps_size = JStr ''2''\<rparr>] \<and>
   parseFloat (JStr ''100'') = Inr (Fin 100) \<and> (0::rat) < 100 \<and>
   (\<exists>r. processOrderbookData_yessave Map.empty Map.empty ''t'' ''@1'' bid_only_snapshot = Some r \<and>
        asks r = [] \<and> spread r = toFixed 8 (js_sub (Fin 0) (Fin 100)) \<and>
        js_sub (Fin 0) (Fin 100) = Fin (- 100) \<and> take 1 (spread r) = ''-'' \<and>
        spreadPercentage r = ''-100.0000%'')"
proof -
  have s: "string_sizes [\<lparr>ps_price = JStr ''100'', ps_size = JStr ''2''\<rparr>]"
    by (simp add: string_sizes_def)
  have p: "parseFloat (ps_price \<lparr>ps_price = JStr ''100'', ps_size = JStr ''2''\<rparr>) = Inr (Fin 100)"
    using pf_100 by simp
  have q: "(0::rat) < 100" by simp
  note th = empty_ask_side[OF transformer_yessave bid_only_sides s p q,
      where sm = Map.empty and mids = Map.empty and now = "''t''" and coin = "''@1''"]
  show ?thesis
    using th transformer_yessave bid_only_sides s pf_100 by (simp del: toFixed.simps)
qed

text \<open>
  C10 as stated fails for a best bid that is positive and infinite: the spread field is
  \<open>''-Infinity''\<close> and the spreadPercentage field is \<open>''NaN%''\<close>.
\<close>

theorem infinite_best_bid_counterexample:
  "side infinite_bid_snapshot 1 = Inr [] \<and>
   bind_e (side infinite_bid_snapshot 0) best = Inr PInf \<and> js_gt PInf (Fin 0) \<and>
   processOrderbookData_yessave Map.empty Map.empty ''t'' ''@1'' infinite_bid_snapshot =
     Some \<lparr>symbol = ''@1'', displaySymbol = ''@1'', lastUpdate = ''t'', midPrice = ''0'',
           spread = ''-Infinity'', spreadPercentage = ''NaN%'',
           bids = [\<lparr>level = 1, price = JStr ''Infinity'', size_f = JStr ''2'',
                    cumulative = ''2.0000'', timestamp = ''t''\<rparr>],
           asks = []\<rparr> \<and>
   processOrderbookData_nosave Map.empty Map.empty ''t'' ''@1'' infinite_bid_snapshot =
   processOrderbookData_yessave Map.empty Map.empty ''t'' ''@1'' infinite_bid_snapshot"
  by (simp add: nosave_eq processOrderbookData_yessave_def try_yessave_def
      infinite_bid_snapshot_def snapshot_sides best_def pf_inf sz rd_small fixed4
      js_gt_def js_sub_def js_div_def js_mul_def is_inf_def is_zero_def inf_s_def is_neg_def
      Let_def del: toFixed.simps(5))

subsection \<open>Messages that the filter drops\<close>

text \<open>
  C8. A parsed message that is not on the \<^verbatim>\<open>l2Book\<close> channel, or has no data payload, or
  whose symbol is not a string starting with \<^verbatim>\<open>@\<close>, leaves the whole state of either
  mode as it was: counters, latest-value cache, save queue, hand-offs and console.
\<close>

theorem unmatched_message_dropped:
  assumes "\<not> on_l2Book m \<or> \<not> has_payload m \<or> \<not> tracked_symbol m"
  shows "onMessage_yessave now (Some m) st = st \<and> onMessage_nosave now (Some m) stA = stA"
  using assms
  by (auto simp: on_l2Book_def has_payload_def tracked_symbol_def onMessage_yessave_def
      onMessage_nosave_def split: sum.splits jsval.splits)

text \<open>
  The hypothesis of C8 holds for a message on the \<^verbatim>\<open>trades\<close> channel.
\<close>

theorem unmatched_message_dropped_witness:
  "\<not> on_l2Book trades_message \<and>
   onMessage_yessave ''t'' (Some trades_message) (initB Map.empty Map.empty) =
     initB Map.empty Map.empty \<and>
   onMessage_nosave ''t'' (Some trades_message) (initA Map.empty Map.empty) =
     initA Map.empty Map.empty"
proof -
  have h: "\<not> on_l2Book trades_message" by (simp add: on_l2Book_def trades_message_def)
  then have "\<not> on_l2Book trades_message \<or> \<not> has_payload trades_message \<or>
      \<not> tracked_symbol trades_message" by simp
  from unmatched_message_dropped[OF this] h show ?thesis by simp
qed

subsection \<open>Registrations without completions\<close>

lemma try_yessave_cong:
  "side l2 0 = side l2' 0 \<Longrightarrow> side l2 1 = side l2' 1 \<Longrightarrow>
   try_yessave sm mids now coin l2 = try_yessave sm mids now coin l2'"
  by (simp add: try_yessave_def)

lemma example_payload_eval:
  "processOrderbookData_yessave Map.empty Map.empty now ''@1'' example_payload =
     Some (example_record now)"
proof -
  have "side example_payload i = side example_snapshot i" for i
    by (simp add: side_def example_payload_def example_snapshot_def snapshot_def)
  then have "try_yessave Map.empty Map.empty now ''@1'' example_payload =
      try_yessave Map.empty Map.empty now ''@1'' example_snapshot"
    by (intro try_yessave_cong) simp_all
  then show ?thesis
    using example_eval[of Map.empty Map.empty now "''@1''"]
    by (simp add: processOrderbookData_yessave_def example_record_def)
qed

lemma status_example:
  "status_line n (example_record now) q =
     Inr (StatusLine n (padEnd 20 ''@1'') (padEnd 12 ''100.00'') (padEnd 12 ''100.50'') q)"
  by (simp add: status_line_def first_price_def example_record_def)

lemma onMessage_example:
  assumes "spotSymbolMapping st = Map.empty" "allMidsCache st = Map.empty"
  shows "onMessage_yessave now (Some (l2Book_message example_payload)) st =
     st\<lparr>processCount := processCount st + 1,
        updatedCoins := insert ''@1'' (updatedCoins st),
        updateCount := updateCount st + 1,
        promisesCreated := promisesCreated st + 1,
        handedOff := handedOff st @ [(promisesCreated st, example_record now)],
        saveQueue := saveQueue st @ [promisesCreated st],
        racesDiscarded := racesDiscarded st + (if 100 \<le> length (saveQueue st) then 1 else 0),
        console := console st @
          [StatusLine (processCount st + 1) (padEnd 20 ''@1'') (padEnd 12 ''100.00'')
             (padEnd 12 ''100.50'') (Some (length (saveQueue st) + 1))]\<rparr>"
proof -
  have c: "get_prop (l2Book_message example_payload) ''channel'' = Inr (JStr ''l2Book'')"
    and d: "get_prop (l2Book_message example_payload) ''data'' = Inr example_payload"
    by (simp_all add: l2Book_message_def)
  have k: "get_prop example_payload ''coin'' = Inr (JStr ''@1'')" "truthy example_payload"
    by (simp_all add: example_payload_def truthy_def)
  have s: "startsWith_at ''@1''" by (simp add: startsWith_at_def)
  show ?thesis
    using assms
    by (simp add: onMessage_yessave_def c d k s Let_def example_payload_eval status_example)
       (simp add: example_record_def)
qed

lemma run_example_messages:
  assumes "spotSymbolMapping st = Map.empty" "allMidsCache st = Map.empty" "\<not> exited st"
    and "racesDiscarded st = length (saveQueue st) - 100"
  shows "length (saveQueue (run st (replicate n (Message now (Some (l2Book_message example_payload))))))
           = length (saveQueue st) + n \<and>
         settled (run st (replicate n (Message now (Some (l2Book_message example_payload)))))
           = settled st \<and>
         racesDiscarded (run st (replicate n (Message now (Some (l2Book_message example_payload)))))
           = length (saveQueue st) + n - 100 \<and>
         processCount (run st (replicate n (Message now (Some (l2Book_message example_payload)))))
           = processCount st + n"
  using assms
proof (induction n arbitrary: st)
  case 0
  then show ?case by (simp add: run_def)
next
  case (Suc n)
  let ?ev = "Message now (Some (l2Book_message example_payload))"
  let ?st = "step st ?ev"
  have st: "?st = onMessage_yessave now (Some (l2Book_message example_payload)) st"
    using Suc.prems(3) by (simp add: step_def)
  note m = onMessage_example[OF Suc.prems(1,2), of now]
  have a: "spotSymbolMapping ?st = Map.empty" "allMidsCache ?st = Map.empty" "\<not> exited ?st"
    using Suc.prems(1-3) by (simp_all add: st m)
  have b: "racesDiscarded ?st = length (saveQueue ?st) - 100"
    using Suc.prems(4) by (simp add: st m) arith
  have l: "length (saveQueue ?st) = length (saveQueue st) + 1" "settled ?st = settled st"
    "processCount ?st = processCount st + 1"
    by (simp_all add: st m)
  from Suc.IH[OF a b] show ?case
    by (simp add: run_Cons l)
qed

text \<open>
  C1. The code at the input where the claim fails: 150 valid messages arrive and no save
  promise settles. After the 101st message the queue holds 101 promises, the handler has
  returned, and the next 49 messages are handled as well: at the end 150 promises are in
  flight, none has settled, and the 50 promises that \<^verbatim>\<open>Promise.race\<close> returned were dropped.
\<close>

theorem backpressure_not_applied:
  "length (saveQueue (run (initB Map.empty Map.empty)
      (replicate 101 (Message now (Some (l2Book_message example_payload)))))) = 101 \<and>
   length (saveQueue (run (initB Map.empty Map.empty)
      (replicate 150 (Message now (Some (l2Book_message example_payload)))))) = 150 \<and>
   settled (run (initB Map.empty Map.empty)
      (replicate 150 (Message now (Some (l2Book_message example_payload))))) = {} \<and>
   racesDiscarded (run (initB Map.empty Map.empty)
      (replicate 150 (Message now (Some (l2Book_message example_payload))))) = 50 \<and>
   processCount (run (initB Map.empty Map.empty)
      (replicate 150 (Message now (Some (l2Book_message example_payload))))) = 150"
proof -
  have i: "spotSymbolMapping (initB Map.empty Map.empty) = Map.empty"
    "allMidsCache (initB Map.empty Map.empty) = Map.empty"
    "\<not> exited (initB Map.empty Map.empty)"
    "racesDiscarded (initB Map.empty Map.empty) = length (saveQueue (initB Map.empty Map.empty)) - 100"
    "saveQueue (initB Map.empty Map.empty) = []" "settled (initB Map.empty Map.empty) = {}"
    "processCount (initB Map.empty Map.empty) = 0"
    by (simp_all add: initB_def)
  show ?thesis
    using run_example_messages[OF i(1-4), of 101 now] run_example_messages[OF i(1-4), of 150 now]
    by (simp add: i(5-7))
qed

subsection \<open>Draining at the stop signal\<close>

lemma onMessage_yessave_frame:
  "exited (onMessage_yessave now p st) = exited st"
  "drainWaits (onMessage_yessave now p st) = drainWaits st"
  "settled (onMessage_yessave now p st) = settled st"
  by (auto simp: onMessage_yessave_def Let_def
      split: option.splits sum.splits jsval.splits)

lemma onMessage_yessave_queue:
  "(saveQueue (onMessage_yessave now p st) = saveQueue st \<and>
    handedOff (onMessage_yessave now p st) = handedOff st) \<or>
   (\<exists>cd. saveQueue (onMessage_yessave now p st) = saveQueue st @ [promisesCreated st] \<and>
         handedOff (onMessage_yessave now p st) = handedOff st @ [(promisesCreated st, cd)])"
  by (auto simp: onMessage_yessave_def Let_def
      split: option.splits sum.splits jsval.splits)

lemma accounted_step: "accounted st \<Longrightarrow> accounted (step st ev)"
proof (cases ev)
  case (Message now p)
  assume a: "accounted st"
  let ?st = "onMessage_yessave now p st"
  consider "saveQueue ?st = saveQueue st" "handedOff ?st = handedOff st"
    | cd where "saveQueue ?st = saveQueue st @ [promisesCreated st]"
        "handedOff ?st = handedOff st @ [(promisesCreated st, cd)]"
    using onMessage_yessave_queue[of now p st] by blast
  then have "accounted ?st"
  proof cases
    case 1
    then show ?thesis using a by (simp add: accounted_def onMessage_yessave_frame)
  next
    case 2
    then show ?thesis using a by (simp add: accounted_def onMessage_yessave_frame)
  qed
  then show ?thesis using a by (simp add: step_def Message)
qed (auto simp: step_def accounted_def)

lemma accounted_run: "accounted st \<Longrightarrow> accounted (run st evs)"
  by (induction evs arbitrary: st) (simp_all add: run_def accounted_step)

lemma accounted_init: "accounted (initB sm mids)"
  by (simp add: accounted_def initB_def)

text \<open>Before the first stop signal nothing waits and the process has not exited.\<close>

lemma no_sigint_step:
  "ev \<noteq> Sigint \<Longrightarrow> \<not> exited st \<Longrightarrow> drainWaits st = [] \<Longrightarrow>
   \<not> exited (step st ev) \<and> drainWaits (step st ev) = []"
  by (cases ev) (simp_all add: step_def onMessage_yessave_frame)

lemma no_sigint_run:
  "Sigint \<notin> set evs \<Longrightarrow> \<not> exited st \<Longrightarrow> drainWaits st = [] \<Longrightarrow>
   \<not> exited (run st evs) \<and> drainWaits (run st evs) = []"
proof (induction evs arbitrary: st)
  case Nil
  then show ?case by (simp add: run_def)
next
  case (Cons ev evs)
  then have "\<not> exited (step st ev) \<and> drainWaits (step st ev) = []"
    by (intro no_sigint_step) auto
  with Cons show ?case by (simp add: run_Cons)
qed

lemma draining_step: "draining Q st \<Longrightarrow> draining Q (step st ev)"
proof (cases "exited st")
  case True
  then show "draining Q st \<Longrightarrow> draining Q (step st ev)" by (simp add: step_def)
next
  case False
  assume d: "draining Q st"
  then have q: "Q - settled st \<subseteq> set (saveQueue st)"
    and w: "list_all (\<lambda>w. Q - settled st \<subseteq> set w) (drainWaits st)"
    using False by (simp_all add: draining_def)
  show "draining Q (step st ev)"
  proof (cases ev)
    case (Message now p)
    have "set (saveQueue st) \<subseteq> set (saveQueue (onMessage_yessave now p st))"
      using onMessage_yessave_queue[of now p st] by auto
    then show ?thesis
      using False q w by (auto simp: step_def Message draining_def onMessage_yessave_frame)
  next
    case (SaveSettled p)
    have "list_all (\<lambda>w. Q - insert p (settled st) \<subseteq> set w) (drainWaits st)"
      using w unfolding list_all_iff by auto
    then show ?thesis
      using False q w by (auto simp: step_def SaveSettled draining_def)
  next
    case (MidsRefreshed m)
    then show ?thesis using False q w by (simp add: step_def draining_def)
  next
    case Sigint
    then show ?thesis using False q w by (auto simp: step_def draining_def)
  next
    case DrainResumed
    show ?thesis
    proof (cases "list_ex (\<lambda>w. list_all (\<lambda>p. p \<in> settled st) w) (drainWaits st)")
      case True
      then obtain w' where w': "w' \<in> set (drainWaits st)" "set w' \<subseteq> settled st"
        unfolding list_ex_iff list_all_iff by auto
      then have "Q - settled st \<subseteq> set w'" using w unfolding list_all_iff by auto
      then have "Q \<subseteq> settled st" using w'(2) by auto
      then show ?thesis using False True by (simp add: step_def DrainResumed draining_def)
    next
      case F: False
      then show ?thesis using False d by (simp add: step_def DrainResumed)
    qed
  qed
qed

lemma draining_run: "draining Q st \<Longrightarrow> draining Q (run st evs)"
  by (induction evs arbitrary: st) (simp_all add: run_def draining_step)

lemma run_append: "run st (xs @ ys) = run (run st xs) ys"
  by (simp add: run_def)

lemma initB_simps:
  "isRunning (initB sm mids) = True" "spotSymbolMapping (initB sm mids) = sm"
  "allMidsCache (initB sm mids) = mids" "processCount (initB sm mids) = 0"
  "updateCount (initB sm mids) = 0" "updatedCoins (initB sm mids) = {}"
  "saveQueue (initB sm mids) = []" "promisesCreated (initB sm mids) = 0"
  "handedOff (initB sm mids) = []" "settled (initB sm mids) = {}"
  "racesDiscarded (initB sm mids) = 0" "console (initB sm mids) = []"
  "drainWaits (initB sm mids) = []" "exited (initB sm mids) = False"
  by (simp_all add: initB_def)

text \<open>
  What the wait of the signal handler does secure: when the process exits after the first
  stop signal, every save promise that was handed off before that signal, and so every
  promise that was in the queue when it arrived, has settled.
\<close>

theorem shutdown_drains:
  assumes "Sigint \<notin> set pre"
    and "exited (run (initB sm mids) (pre @ Sigint # post))"
  shows "fst ` set (handedOff (run (initB sm mids) pre))
           \<subseteq> settled (run (initB sm mids) (pre @ Sigint # post)) \<and>
         set (saveQueue (run (initB sm mids) pre))
           \<subseteq> settled (run (initB sm mids) (pre @ Sigint # post))"
proof -
  define s0 where "s0 = run (initB sm mids) pre"
  define Q where "Q = fst ` set (handedOff s0)"
  have n: "\<not> exited s0" "drainWaits s0 = []"
    using no_sigint_run[OF assms(1), of "initB sm mids"] by (simp_all add: s0_def initB_def)
  have a: "accounted s0" unfolding s0_def by (rule accounted_run) (rule accounted_init)
  then have q: "Q - settled s0 \<subseteq> set (saveQueue s0)" "set (saveQueue s0) \<subseteq> Q"
    by (auto simp: accounted_def Q_def)
  have "draining Q (step s0 Sigint)"
    using n q by (auto simp: step_def draining_def)
  then have "draining Q (run (step s0 Sigint) post)" by (rule draining_run)
  moreover have "run (initB sm mids) (pre @ Sigint # post) = run (step s0 Sigint) post"
    by (simp add: run_append run_Cons s0_def)
  ultimately have "Q \<subseteq> settled (run (initB sm mids) (pre @ Sigint # post))"
    using assms(2) by (simp add: draining_def)
  then show ?thesis using q(2) by (auto simp: Q_def s0_def)
qed

text \<open>
  The hypotheses hold for a run with one task in flight at the stop signal.
\<close>

theorem shutdown_drains_witness:
  "Sigint \<notin> set [Message ''t'' (Some (l2Book_message example_payload))] \<and>
   exited (run (initB Map.empty Map.empty)
     ([Message ''t'' (Some (l2Book_message example_payload))] @
      Sigint # [Message ''u'' (Some (l2Book_message example_payload)), SaveSettled 0,
                DrainResumed])) \<and>
   saveQueue (run (initB Map.empty Map.empty)
     [Message ''t'' (Some (l2Book_message example_payload))]) = [0] \<and>
   0 \<in> settled (run (initB Map.empty Map.empty)
     ([Message ''t'' (Some (l2Book_message example_payload))] @
      Sigint # [Message ''u'' (Some (l2Book_message example_payload)), SaveSettled 0,
                DrainResumed]))"
proof -
  let ?m = "\<lambda>t. Message t (Some (l2Book_message example_payload))"
  have s1: "saveQueue (run (initB Map.empty Map.empty) [?m ''t'']) = [0]"
    by (simp add: run_def step_def onMessage_example initB_simps)
  have e: "exited (run (initB Map.empty Map.empty)
     ([?m ''t''] @ Sigint # [?m ''u'', SaveSettled 0, DrainResumed]))"
    by (simp add: run_def step_def onMessage_example initB_simps)
  have n: "Sigint \<notin> set [?m ''t'']" by simp
  from shutdown_drains[OF n e] s1 e show ?thesis by simp
qed

text \<open>
  The handler of messages never reads \<^verbatim>\<open>isRunning\<close>: it does the same with the flag cleared.
\<close>

lemma onMessage_yessave_isRunning:
  "onMessage_yessave now p (st\<lparr>isRunning := b\<rparr>) = (onMessage_yessave now p st)\<lparr>isRunning := b\<rparr>"
  by (auto simp: onMessage_yessave_def Let_def
      split: option.splits sum.splits jsval.splits)

text \<open>
  C2. The code at the input where the claim fails: a valid message, the stop signal while
  its save is in flight, a second valid message, then the first save settles and the wait
  of the signal handler resumes. At the signal the handler clears \<^verbatim>\<open>isRunning\<close> and waits
  for the array of the one promise then queued. The second message is accepted all the
  same and handed off as promise 1. When promise 0 has settled the process exits, with
  promise 1 handed off, still in the queue and not settled.
\<close>

theorem shutdown_abandons_late_task:
  "saveQueue (run (initB Map.empty Map.empty)
     [Message ''t'' (Some (l2Book_message example_payload)), Sigint]) = [0] \<and>
   drainWaits (run (initB Map.empty Map.empty)
     [Message ''t'' (Some (l2Book_message example_payload)), Sigint]) = [[0]] \<and>
   \<not> isRunning (run (initB Map.empty Map.empty)
     [Message ''t'' (Some (l2Book_message example_payload)), Sigint]) \<and>
   \<not> exited (run (initB Map.empty Map.empty)
     [Message ''t'' (Some (l2Book_message example_payload)), Sigint]) \<and>
   handedOff (run (initB Map.empty Map.empty)
     [Message ''t'' (Some (l2Book_message example_payload)), Sigint,
      Message ''u'' (Some (l2Book_message example_payload))])
     = [(0, example_record ''t''), (1, example_record ''u'')] \<and>
   exited (run (initB Map.empty Map.empty)
     [Message ''t'' (Some (l2Book_message example_payload)), Sigint,
      Message ''u'' (Some (l2Book_message example_payload)), SaveSettled 0, DrainResumed]) \<and>
   handedOff (run (initB Map.empty Map.empty)
     [Message ''t'' (Some (l2Book_message example_payload)), Sigint,
      Message ''u'' (Some (l2Book_message example_payload)), SaveSettled 0, DrainResumed])
     = [(0, example_record ''t''), (1, example_record ''u'')] \<and>
   saveQueue (run (initB Map.empty Map.empty)
     [Message ''t'' (Some (l2Book_message example_payload)), Sigint,
      Message ''u'' (Some (l2Book_message example_payload)), SaveSettled 0, DrainResumed]) = [1] \<and>
   settled (run (initB Map.empty Map.empty)
     [Message ''t'' (Some (l2Book_message example_payload)), Sigint,
      Message ''u'' (Some (l2Book_message example_payload)), SaveSettled 0, DrainResumed]) = {0}"
  by (simp add: run_def step_def onMessage_example initB_simps)

subsection \<open>The selected levels of a valid snapshot\<close>

lemma js_le_trans: "js_le a b \<Longrightarrow> js_le b c \<Longrightarrow> js_le a c"
  by (cases a; cases b; cases c) (auto simp: js_le_def)

lemma nonneg_cases:
  "js_le (Fin 0) x \<longleftrightarrow> x = PInf \<or> x = NZero \<or> (\<exists>q. x = Fin q \<and> 0 \<le> q)"
  by (cases x) (auto simp: js_le_def)

lemma rd_acc:
  assumes "0 \<le> q"
  shows "rd q = PInf \<or> (\<exists>a. rd q = Fin a \<and> 0 \<le> a \<and> rd a = Fin a)"
proof -
  have "js_le (Fin 0) (rd q)" using rd_mono_nonneg[of 0 q] assms by (simp add: rd_0)
  moreover have "rd q \<noteq> NZero" using assms by (auto simp: rd_def)
  ultimately show ?thesis by (auto simp: nonneg_cases intro: rd_idem)
qed

lemma js_add_acc:
  assumes "c = PInf \<or> (\<exists>a. c = Fin a \<and> 0 \<le> a \<and> rd a = Fin a)" and "js_le (Fin 0) s"
  shows "js_le c (js_add c s)"
    and "js_add c s = PInf \<or> (\<exists>a. js_add c s = Fin a \<and> 0 \<le> a \<and> rd a = Fin a)"
proof -
  consider "c = PInf" | a where "c = Fin a" "0 \<le> a" "rd a = Fin a"
    using assms(1) by auto
  then have "js_le c (js_add c s) \<and>
      (js_add c s = PInf \<or> (\<exists>a. js_add c s = Fin a \<and> 0 \<le> a \<and> rd a = Fin a))"
  proof cases
    case 1
    then show ?thesis using assms(2)[unfolded nonneg_cases] by (auto simp: js_le_def)
  next
    case 2
    consider "s = PInf" | "s = NZero" | b where "s = Fin b" "0 \<le> b"
      using assms(2) by (auto simp: nonneg_cases)
    then show ?thesis
    proof cases
      case 1
      then show ?thesis using 2 by (simp add: js_le_def)
    next
      case z: 2
      then show ?thesis using 2 by (simp add: js_le_def)
    next
      case b: 3
      have "js_le (rd a) (rd (a + b))" using 2(2) b(2) by (intro rd_mono_nonneg) simp_all
      then have "js_le c (js_add c s)" by (simp add: 2 b)
      moreover have "0 \<le> a + b" using 2(2) b(2) by simp
      ultimately show ?thesis using rd_acc[of "a + b"] by (simp add: 2 b)
    qed
  qed
  then show "js_le c (js_add c s)"
    and "js_add c s = PInf \<or> (\<exists>a. js_add c s = Fin a \<and> 0 \<le> a \<and> rd a = Fin a)"
    by simp_all
qed

lemma running_sorted:
  assumes "c = PInf \<or> (\<exists>a. c = Fin a \<and> 0 \<le> a \<and> rd a = Fin a)"
    and "list_all (js_le (Fin 0)) xs"
  shows "sorted_wrt js_le (running c xs) \<and> list_all (js_le c) (running c xs)"
  using assms
proof (induction xs arbitrary: c)
  case Nil
  then show ?case by simp
next
  case (Cons x xs)
  have x: "js_le (Fin 0) x" and xs: "list_all (js_le (Fin 0)) xs" using Cons.prems(2) by simp_all
  note st = js_add_acc[OF Cons.prems(1) x]
  from Cons.IH[OF st(2) xs]
  have ih: "sorted_wrt js_le (running (js_add c x) xs)"
    "list_all (js_le (js_add c x)) (running (js_add c x) xs)" by simp_all
  have "list_all (js_le c) (running (js_add c x) xs)"
    using ih(2) st(1) unfolding list_all_iff by (auto intro: js_le_trans)
  moreover have "js_le c (js_add c x)" by (rule st(1))
  ultimately show ?case using ih by (simp add: list_all_iff)
qed

lemma px_sz_valid: "valid_level lv \<Longrightarrow> px_sz lv = Inr (ps_of lv)"
  by (cases lv) (auto simp: valid_level_def field_def px_sz_def ps_of_def split: jsval.splits)

lemma map_e_valid: "list_all valid_level xs \<Longrightarrow> map_e px_sz xs = Inr (map ps_of xs)"
  by (induction xs) (simp_all add: px_sz_valid)

lemma side_valid:
  "side_entries l2 i = Some xs \<Longrightarrow> list_all valid_level xs \<Longrightarrow> side l2 i = Inr (map ps_of xs)"
  using map_e_valid[of xs]
  by (auto simp: side_entries_def side_def array_of_def bind_e_def
      split: sum.splits jsval.splits)

lemma best_valid: "list_all valid_level xs \<Longrightarrow> \<exists>b. best (map ps_of xs) = Inr b"
  by (cases xs)
    (auto simp: best_def valid_level_def ps_of_def parseFloat_def split: jsval.splits)

lemma valid_size:
  "valid_level lv \<Longrightarrow> parseFloat (ps_size (ps_of lv)) = Inr (size_num lv) \<and>
     js_le (Fin 0) (size_num lv)"
  by (auto simp: valid_level_def ps_of_def parseFloat_def size_num_def split: jsval.splits)

lemma upt_Suc_Cons: "[Suc idx ..< Suc (Suc (idx + n))] = Suc idx # [Suc (Suc idx) ..< Suc (Suc (idx + n))]"
  by (simp add: upt_rec)

lemma top_yessave_valid:
  assumes "list_all valid_level xs"
  shows "\<exists>ls. top_yessave ts cum idx (map ps_of xs) = Inr ls \<and>
     length ls = length xs \<and>
     map price ls = map (\<lambda>lv. field lv ''px'') xs \<and>
     map size_f ls = map (\<lambda>lv. field lv ''sz'') xs \<and>
     map timestamp ls = replicate (length xs) ts \<and>
     map level ls = [Suc idx ..< Suc (idx + length xs)] \<and>
     map cumulative ls = map (toFixed 4) (running cum (map size_num xs))"
  using assms
proof (induction xs arbitrary: cum idx)
  case Nil
  then show ?case by simp
next
  case (Cons x xs)
  have x: "valid_level x" and xs: "list_all valid_level xs" using Cons.prems by simp_all
  from Cons.IH[OF xs, of "js_add cum (size_num x)" "Suc idx"]
  obtain ls where ls: "top_yessave ts (js_add cum (size_num x)) (Suc idx) (map ps_of xs) = Inr ls"
    "length ls = length xs"
    "map price ls = map (\<lambda>lv. field lv ''px'') xs"
    "map size_f ls = map (\<lambda>lv. field lv ''sz'') xs"
    "map timestamp ls = replicate (length xs) ts"
    "map level ls = [Suc (Suc idx) ..< Suc (Suc idx + length xs)]"
    "map cumulative ls = map (toFixed 4) (running (js_add cum (size_num x)) (map size_num xs))"
    by blast
  show ?case
    using valid_size[OF x] ls
    by (simp add: Let_def upt_Suc_Cons del: toFixed.simps upt_Suc) (simp add: ps_of_def)
qed

lemma list_all_take: "list_all P xs \<Longrightarrow> list_all P (take n xs)"
  unfolding list_all_iff by (auto dest: in_set_takeD)

lemma top_selected:
  assumes "list_all valid_level xs"
  shows "\<exists>ls. top_yessave now (Fin 0) 0 (take (min 10 (length (map ps_of xs))) (map ps_of xs))
            = Inr ls \<and> selected now xs ls"
proof -
  let ?ys = "take (min 10 (length xs)) xs"
  have v: "list_all valid_level ?ys" using assms by (rule list_all_take)
  from top_yessave_valid[OF v, of now "Fin 0" 0]
  obtain ls where ls: "top_yessave now (Fin 0) 0 (map ps_of ?ys) = Inr ls"
    "length ls = length ?ys"
    "map price ls = map (\<lambda>lv. field lv ''px'') ?ys"
    "map size_f ls = map (\<lambda>lv. field lv ''sz'') ?ys"
    "map timestamp ls = replicate (length ?ys) now"
    "map level ls = [Suc 0 ..< Suc (0 + length ?ys)]"
    "map cumulative ls = map (toFixed 4) (running (Fin 0) (map size_num ?ys))"
    by blast
  have nn: "list_all (js_le (Fin 0)) (map size_num ?ys)"
    using v valid_size unfolding list_all_iff by auto
  have "sorted_wrt js_le (running (Fin 0) (map size_num ?ys))"
    using running_sorted[OF _ nn, of "Fin 0"] by (simp add: rd_0)
  moreover have "sorted_wrt (<) (map level ls)"
    unfolding ls(6) by (rule sorted_wrt_upt)
  ultimately have "selected now xs ls"
    using ls(2-7) by (simp add: selected_def del: toFixed.simps)
  then show ?thesis using ls(1) by (auto simp: take_map)
qed

text \<open>
  C6. For every valid snapshot either variant returns a record; each side of it has at
  most 10 levels, exactly the first \<open>min 10 (length xs)\<close> entries of that side in feed
  order; the level fields are 1, 2, ..., strictly increasing; and the cumulative fields
  are the texts of the running sums of the selected sizes, started at zero for each side,
  which do not decrease.
\<close>

theorem valid_snapshot_depth:
  assumes "transformer f"
    and "side_entries l2 0 = Some bs" and "side_entries l2 1 = Some as"
    and "list_all valid_level bs" and "list_all valid_level as"
  shows "\<exists>r. f sm mids now coin l2 = Some r \<and>
              selected now bs (bids r) \<and> selected now as (asks r)"
proof -
  have sb: "side l2 0 = Inr (map ps_of bs)" using assms(2,4) by (rule side_valid)
  have sa: "side l2 1 = Inr (map ps_of as)" using assms(3,5) by (rule side_valid)
  obtain bb ba where b: "best (map ps_of bs) = Inr bb" "best (map ps_of as) = Inr ba"
    using best_valid[OF assms(4)] best_valid[OF assms(5)] by blast
  obtain tb where tb:
    "top_yessave now (Fin 0) 0 (take (min 10 (length (map ps_of bs))) (map ps_of bs)) = Inr tb"
    "selected now bs tb"
    using top_selected[OF assms(4)] by blast
  obtain ta where ta:
    "top_yessave now (Fin 0) 0 (take (min 10 (length (map ps_of as))) (map ps_of as)) = Inr ta"
    "selected now as ta"
    using top_selected[OF assms(5)] by blast
  have "\<exists>r. processOrderbookData_yessave sm mids now coin l2 = Some r \<and>
      bids r = tb \<and> asks r = ta"
    using sb sa b tb(1) ta(1)
    by (simp add: processOrderbookData_yessave_def try_yessave_def Let_def del: toFixed.simps)
  then show ?thesis
    using tb(2) ta(2) transformer_eq[OF assms(1), of sm mids now coin l2] by auto
qed

lemma example_entries:
  "side_entries example_snapshot 0 = Some [level_obj ''100.00'' ''2'', level_obj ''99.50'' ''3'']"
  "side_entries example_snapshot 1 = Some [level_obj ''100.50'' ''1'', level_obj ''101.00'' ''4'']"
  by (simp_all add: side_entries_def example_snapshot_def snapshot_def)

lemma example_valid:
  "list_all valid_level [level_obj ''100.00'' ''2'', level_obj ''99.50'' ''3'']"
  "list_all valid_level [level_obj ''100.50'' ''1'', level_obj ''101.00'' ''4'']"
  using sz by (simp_all add: valid_level_def field_def level_obj_def parseFloat_def js_le_def)

text \<open>
  The hypotheses of C6 hold on the example snapshot.
\<close>

theorem valid_snapshot_depth_witness:
  "transformer processOrderbookData_yessave \<and>
   side_entries example_snapshot 0 =
     Some [level_obj ''100.00'' ''2'', level_obj ''99.50'' ''3''] \<and>
   side_entries example_snapshot 1 =
     Some [level_obj ''100.50'' ''1'', level_obj ''101.00'' ''4''] \<and>
   list_all valid_level [level_obj ''100.00'' ''2'', level_obj ''99.50'' ''3''] \<and>
   list_all valid_level [level_obj ''100.50'' ''1'', level_obj ''101.00'' ''4''] \<and>
   (\<exists>r. processOrderbookData_yessave Map.empty Map.empty ''t'' ''@1'' example_snapshot = Some r \<and>
        selected ''t'' [level_obj ''100.00'' ''2'', level_obj ''99.50'' ''3''] (bids r) \<and>
        selected ''t'' [level_obj ''100.50'' ''1'', level_obj ''101.00'' ''4''] (asks r))"
  using valid_snapshot_depth[OF transformer_yessave example_entries example_valid,
      of Map.empty Map.empty "''t''" "''@1''"]
    transformer_yessave example_entries example_valid
  by blast

subsection \<open>The tabular file read back\<close>

lemma pf_commas: "parseFloat (JStr ''1,2'') = Inr (Fin 1)" "parseFloat (JStr ''2,2'') = Inr (Fin 2)"
  by (simp_all add: parse_defs rd_small)

lemma fixed8_m1: "toFixed 8 (Fin (- 1)) = ''-1.00000000''"
  by (simp add: fixed_eval)

lemma comma_records:
  "processOrderbookData_yessave Map.empty Map.empty ''t'' ''@1'' comma_price_snapshot
     = Some comma_price_record"
  "processOrderbookData_yessave Map.empty Map.empty ''t'' ''@1'' comma_size_snapshot
     = Some comma_size_record"
  using pct_empty_asks[OF rd_small(1)]
  by (simp_all add: processOrderbookData_yessave_def try_yessave_def comma_price_snapshot_def
      comma_size_snapshot_def snapshot_sides best_def pf_commas sz rd_small fixed4 fixed8_m1
      fixed_m100 js_gt_def Let_def comma_price_record_def comma_size_record_def
      del: toFixed.simps(5))

lemma csv_comma:
  "csvContent comma_price_record =
     Inr (''Side,Level,Price,Size,Cumulative,Timestamp'' @ [CHR 0x0A] @ ''BID,1,1,2,2,2.0000,t'')"
  "csvContent comma_size_record =
     Inr (''Side,Level,Price,Size,Cumulative,Timestamp'' @ [CHR 0x0A] @ ''BID,1,1,2,2,2.0000,t'')"
  by (simp_all add: csvContent_def csv_row_def csvHeader_def comma_price_record_def
      comma_size_record_def digits_1)

text \<open>
  C7, as stated, does not hold for every record. The transformer makes two records with
  different tuples of two snapshots whose price and size texts differ only in the place of
  a comma; the file written for both is the same text, so no reader at all gives back
  both records, and the reader above gives back neither: the row has seven fields.
\<close>

theorem csv_round_trip_counterexample:
  "processOrderbookData_yessave Map.empty Map.empty ''t'' ''@1'' comma_price_snapshot
     = Some comma_price_record \<and>
   processOrderbookData_yessave Map.empty Map.empty ''t'' ''@1'' comma_size_snapshot
     = Some comma_size_record \<and>
   csvContent comma_price_record = csvContent comma_size_record \<and>
   tuples comma_price_record \<noteq> tuples comma_size_record \<and>
   csvContent comma_price_record =
     Inr (''Side,Level,Price,Size,Cumulative,Timestamp'' @ [CHR 0x0A] @ ''BID,1,1,2,2,2.0000,t'') \<and>
   parse_csv (''Side,Level,Price,Size,Cumulative,Timestamp'' @ [CHR 0x0A] @ ''BID,1,1,2,2,2.0000,t'')
     = None"
  by (simp add: comma_records csv_comma)
     (simp add: tuples_def comma_price_record_def comma_size_record_def parse_csv_def
       parse_row_def)

lemma split_on_none: "c \<notin> set s \<Longrightarrow> split_on c s = [s]"
  by (induction s) auto

lemma split_on_append: "c \<notin> set s \<Longrightarrow> split_on c (s @ c # rest) = s # split_on c rest"
  by (induction s) auto

lemma digit_char_val: "digit_val (digit_char n) = n mod 10"
proof -
  have "\<forall>k \<in> set [0, 1, 2, 3, 4, 5, 6, 7, 8, 9]. digit_val (''0123456789'' ! k) = k"
    by (simp add: digit_val_def)
  moreover have "n mod 10 \<in> set [0, 1, 2, 3, 4, 5, 6, 7, 8, 9]"
  proof -
    have "n mod 10 < 10" by simp
    then show ?thesis by (simp only: list.set) (simp; arith)
  qed
  ultimately show ?thesis unfolding digit_char_def by blast
qed

lemma digit_char_is_digit: "is_digit (digit_char n)"
proof -
  have "n mod 10 < length ''0123456789''" by simp
  then have "''0123456789'' ! (n mod 10) \<in> set ''0123456789''" by (rule nth_mem)
  then show ?thesis by (simp only: is_digit_def digit_char_def)
qed

lemma digits_props:
  "digits_val (digits n) = n \<and> list_all is_digit (digits n) \<and> digits n \<noteq> []"
proof (induction n rule: digits.induct)
  case (1 n)
  show ?case
  proof (cases "n < 10")
    case True
    then have d: "digits n = [digit_char n]" by (simp add: digits.simps[of n])
    have "digit_val (digit_char n) = n" using True by (simp add: digit_char_val)
    then show ?thesis unfolding d by (simp add: digits_val_def digit_char_is_digit)
  next
    case False
    from 1[OF False] have ih: "digits_val (digits (n div 10)) = n div 10"
      "list_all is_digit (digits (n div 10))" by blast+
    have d: "digits n = digits (n div 10) @ [digit_char n]"
      using False by (simp add: digits.simps[of n])
    have "foldl (\<lambda>a c. 10 * a + digit_val c) 0 (digits (n div 10)) = n div 10"
      using ih(1) unfolding digits_val_def .
    then have "digits_val (digits n) = 10 * (n div 10) + n mod 10"
      unfolding d digits_val_def by (simp add: digit_char_val)
    then have "digits_val (digits n) = n" by simp
    then show ?thesis using ih(2) unfolding d by (simp add: digit_char_is_digit)
  qed
qed

lemma is_digit_plain:
  assumes "list_all is_digit ds"
  shows "plain ds"
proof -
  have "\<not> is_digit CHR '',''" "\<not> is_digit (CHR 0x0A)" by (simp_all add: is_digit_def)
  then show ?thesis using assms unfolding list_all_iff plain_def by blast
qed

lemma csv_row_safe: "csv_safe l \<Longrightarrow> csv_row sd l = Inr (row_of sd l)"
  by (auto simp: csv_safe_def csv_row_def row_of_def split: jsval.splits)

lemma map_e_rows: "list_all csv_safe ls \<Longrightarrow> map_e (csv_row sd) ls = Inr (map (row_of sd) ls)"
  by (induction ls) (simp_all add: csv_row_safe)

lemma parse_row_of:
  assumes "csv_safe l" "sd = ''BID'' \<or> sd = ''ASK''"
  shows "parse_row (row_of sd l) = Some (sd, level l, price l, size_f l, cumulative l)"
proof -
  obtain p s where ps: "price l = JStr p" "size_f l = JStr s"
    and pl: "plain p" "plain s" "plain (cumulative l)" "plain (timestamp l)"
    using assms(1) by (auto simp: csv_safe_def split: jsval.splits)
  note d = digits_props[of "level l"]
  have c: "CHR '','' \<notin> set sd" "CHR '','' \<notin> set (digits (level l))" "CHR '','' \<notin> set p"
    "CHR '','' \<notin> set s" "CHR '','' \<notin> set (cumulative l)" "CHR '','' \<notin> set (timestamp l)"
    using assms(2) pl is_digit_plain[of "digits (level l)"] d by (auto simp: plain_def)
  have "split_on CHR '','' (row_of sd l) =
      [sd, digits (level l), p, s, cumulative l, timestamp l]"
    using c by (simp add: row_of_def ps split_on_append split_on_none)
  then show ?thesis using assms(2) d by (auto simp: parse_row_def ps)
qed

lemma row_plain:
  assumes "csv_safe l" "sd = ''BID'' \<or> sd = ''ASK''"
  shows "CHR 0x0A \<notin> set (row_of sd l)" and "row_of sd l \<noteq> []"
proof -
  have "CHR 0x0A \<notin> set (digits (level l))"
    using is_digit_plain[of "digits (level l)"] digits_props[of "level l"] by (simp add: plain_def)
  then show "CHR 0x0A \<notin> set (row_of sd l)"
    using assms by (auto simp: csv_safe_def row_of_def plain_def split: jsval.splits)
  show "row_of sd l \<noteq> []" using assms(2) by (auto simp: row_of_def)
qed

lemma split_on_join_nl:
  assumes "list_all (\<lambda>r. CHR 0x0A \<notin> set r) rs" "rs \<noteq> []"
  shows "split_on (CHR 0x0A) (join_nl rs) = rs"
  using assms
proof (induction rs rule: join_nl.induct)
  case 1
  then show ?case by simp
next
  case (2 r)
  then show ?case by (simp add: split_on_none)
next
  case (3 r v va)
  then show ?case by (simp add: split_on_append)
qed

lemma those_map_Some: "list_all (\<lambda>x. f x = Some (g x)) xs \<Longrightarrow> those (map f xs) = Some (map g xs)"
  by (induction xs) simp_all

text \<open>
  C7, amended. For every record whose levels are safe for the tabular file (price and
  size are strings, and price, size, cumulative and timestamp have no comma and no line
  feed) the file is written, and reading it back gives exactly the tuples of the record,
  bids first then asks.
\<close>

theorem csv_round_trip:
  assumes "list_all csv_safe (bids coinData)" and "list_all csv_safe (asks coinData)"
  shows "\<exists>text. csvContent coinData = Inr text \<and> parse_csv text = Some (tuples coinData)"
proof -
  let ?rows = "map (row_of ''BID'') (bids coinData) @ map (row_of ''ASK'') (asks coinData)"
  let ?text = "csvHeader @ join_nl ?rows"
  have c: "csvContent coinData = Inr ?text"
    using assms by (simp add: csvContent_def map_e_rows)
  have pr: "list_all (\<lambda>r. CHR 0x0A \<notin> set r) ?rows"
    using assms row_plain(1) unfolding list_all_iff by auto
  have ne: "[] \<notin> set ?rows"
    by (auto simp: row_of_def)
  have h: "CHR 0x0A \<notin> set ''Side,Level,Price,Size,Cumulative,Timestamp''" by simp
  have sp: "split_on (CHR 0x0A) ?text =
      ''Side,Level,Price,Size,Cumulative,Timestamp'' # split_on (CHR 0x0A) (join_nl ?rows)"
    unfolding csvHeader_def using split_on_append[OF h, of "join_nl ?rows"] by simp
  have th: "those (map parse_row ?rows) = Some (tuples coinData)"
  proof -
    have "those (map parse_row (map (row_of ''BID'') (bids coinData))) =
        Some (map (\<lambda>l. (''BID'', level l, price l, size_f l, cumulative l)) (bids coinData))"
      unfolding map_map
      by (rule those_map_Some) (use assms(1) parse_row_of in \<open>auto simp: list_all_iff\<close>)
    moreover have "those (map parse_row (map (row_of ''ASK'') (asks coinData))) =
        Some (map (\<lambda>l. (''ASK'', level l, price l, size_f l, cumulative l)) (asks coinData))"
      unfolding map_map
      by (rule those_map_Some) (use assms(2) parse_row_of in \<open>auto simp: list_all_iff\<close>)
    moreover have "those (xs @ ys) = (case those xs of None \<Rightarrow> None
        | Some a \<Rightarrow> (case those ys of None \<Rightarrow> None | Some b \<Rightarrow> Some (a @ b)))"
      for xs ys :: "(string \<times> nat \<times> jsval \<times> jsval \<times> string) option list"
      by (induction xs) (auto split: option.splits)
    ultimately show ?thesis by (simp add: tuples_def)
  qed
  have "parse_csv ?text = Some (tuples coinData)"
  proof (cases "?rows = []")
    case True
    then show ?thesis using sp by (simp add: parse_csv_def tuples_def)
  next
    case False
    then have "split_on (CHR 0x0A) (join_nl ?rows) = ?rows" using pr by (intro split_on_join_nl)
    moreover have "?rows \<noteq> [[]]"
    proof
      assume "?rows = [[]]"
      then have "[] \<in> set ?rows" by (simp only: list.set insertI1)
      then show False using ne by blast
    qed
    ultimately show ?thesis using sp th by (simp add: parse_csv_def)
  qed
  then show ?thesis using c by blast
qed

text \<open>
  The hypotheses of C7 hold on the record of the worked example.
\<close>

theorem csv_round_trip_witness:
  "list_all csv_safe (bids (example_record ''t'')) \<and>
   list_all csv_safe (asks (example_record ''t'')) \<and>
   (\<exists>text. csvContent (example_record ''t'') = Inr text \<and>
      parse_csv text =
        Some [(''BID'', 1, JStr ''100.00'', JStr ''2'', ''2.0000''),
              (''BID'', 2, JStr ''99.50'', JStr ''3'', ''5.0000''),
              (''ASK'', 1, JStr ''100.50'', JStr ''1'', ''1.0000''),
              (''ASK'', 2, JStr ''101.00'', JStr ''4'', ''5.0000'')])"
proof -
  have b: "list_all csv_safe (bids (example_record ''t''))"
    by (simp add: example_record_def csv_safe_def plain_def)
  have a: "list_all csv_safe (asks (example_record ''t''))"
    by (simp add: example_record_def csv_safe_def plain_def)
  have t: "tuples (example_record ''t'') =
      [(''BID'', 1, JStr ''100.00'', JStr ''2'', ''2.0000''),
       (''BID'', 2, JStr ''99.50'', JStr ''3'', ''5.0000''),
       (''ASK'', 1, JStr ''100.50'', JStr ''1'', ''1.0000''),
       (''ASK'', 2, JStr ''101.00'', JStr ''4'', ''5.0000'')]"
    by (simp add: tuples_def example_record_def)
  note r = csv_round_trip[OF b a]
  show ?thesis using b a r unfolding t by blast
qed

end
